theory Spec2Isabelle
  imports Complex_Main "HOL-Library.AList"
begin

section \<open>JSON values\<close>

text \<open>
  The program of \<^verbatim>\<open>src/main.ts\<close> is glue around a template designer widget. Every
  document it touches is obtained with \<^verbatim>\<open>JSON.parse\<close>, so documents are modelled as JSON
  values. An object is an association list in the order of its keys; \<^verbatim>\<open>JSON.parse\<close> and
  property assignment keep keys unique, and no statement below depends on their order
  (JavaScript lists integer-like keys first, which is not modelled).

  Numbers: a finite JavaScript number is modelled by the exact decimal \<open>Fin m e\<close>, of value
  \<open>m * 10 ^ e\<close>, kept with a mantissa that has no trailing zero; the rounding of binary
  floating point is not modelled (the only sums the program computes are of the small
  constants of its layout), there is no negative zero, and a decimal may be longer or
  larger than any double. \<open>NaN\<close> and the infinities are results of \<^verbatim>\<open>parseFloat\<close>.

  Strings are sequences of 8-bit characters; an escape of a code unit above 255 is outside
  the model, and parsing then answers \<open>Unmodelled\<close> instead of a value.
\<close>

datatype jsnum = Fin int int | NaN | PosInf | NegInf

datatype json =
    JNull
  | JBool bool
  | JNum jsnum
  | JStr string
  | JArr "json list"
  | JObj "(string \<times> json) list"

datatype error = TypeError | SyntaxError | Unmodelled

subsection \<open>\<^verbatim>\<open>JSON.stringify\<close>\<close>

text \<open>
  \<open>number_to_string\<close> is the \<^verbatim>\<open>Number::toString\<close> of ECMAScript on the decimal form,
  \<open>quote_json_string\<close> its \<^verbatim>\<open>QuoteJSONString\<close>, and \<open>serialize gap indent\<close> its
  \<^verbatim>\<open>SerializeJSONProperty\<close>: \<open>stringify\<close> is \<^verbatim>\<open>JSON.stringify(v)\<close> and
  \<open>stringify_pretty\<close> is \<^verbatim>\<open>JSON.stringify(v, null, 2)\<close>.
\<close>

definition digit_char :: "nat \<Rightarrow> char" where
  "digit_char n = ''0123456789abcdef'' ! n"

fun digits :: "nat \<Rightarrow> string" where
  "digits n = (if n < 10 then [digit_char n] else digits (n div 10) @ [digit_char (n mod 10)])"

definition number_body :: "nat \<Rightarrow> int \<Rightarrow> string" where
  "number_body m e =
     (let ds = digits m; k = int (length ds); n = e + k
      in if k \<le> n \<and> n \<le> 21 then ds @ replicate (nat (n - k)) CHR ''0''
         else if 0 < n \<and> n \<le> 21 then take (nat n) ds @ CHR ''.'' # drop (nat n) ds
         else if - 6 < n \<and> n \<le> 0 then ''0.'' @ replicate (nat (- n)) CHR ''0'' @ ds
         else (if k = 1 then ds else hd ds # CHR ''.'' # tl ds)
              @ CHR ''e'' # (if n - 1 < 0 then CHR ''-'' else CHR ''+'')
              # digits (nat \<bar>n - 1\<bar>))"

definition number_to_string :: "jsnum \<Rightarrow> string" where
  "number_to_string x =
     (case x of
        NaN \<Rightarrow> ''NaN''
      | PosInf \<Rightarrow> ''Infinity''
      | NegInf \<Rightarrow> ''-Infinity''
      | Fin m e \<Rightarrow>
          if m = 0 then ''0''
          else if m < 0 then CHR ''-'' # number_body (nat (- m)) e
          else number_body (nat m) e)"

definition backslash :: char where "backslash = CHR 0x5C"
definition dquote :: char where "dquote = CHR 0x22"
definition newline :: char where "newline = CHR 0x0A"

definition quote_char :: "char \<Rightarrow> string" where
  "quote_char c =
     (if c = CHR 0x08 then [backslash, CHR ''b'']
      else if c = CHR 0x09 then [backslash, CHR ''t'']
      else if c = CHR 0x0A then [backslash, CHR ''n'']
      else if c = CHR 0x0C then [backslash, CHR ''f'']
      else if c = CHR 0x0D then [backslash, CHR ''r'']
      else if c = dquote then [backslash, dquote]
      else if c = backslash then [backslash, backslash]
      else if (of_char c :: nat) < 32 then
        [backslash, CHR ''u'', CHR ''0'', CHR ''0'',
         digit_char (of_char c div 16), digit_char (of_char c mod 16)]
      else [c])"

definition quote_json_string :: "string \<Rightarrow> string" where
  "quote_json_string s = dquote # concat (map quote_char s) @ [dquote]"

fun join :: "'a list \<Rightarrow> 'a list list \<Rightarrow> 'a list" where
  "join sep [] = []"
| "join sep [x] = x"
| "join sep (x # y # ys) = x @ sep @ join sep (y # ys)"

fun serialize :: "string \<Rightarrow> string \<Rightarrow> json \<Rightarrow> string" where
  "serialize gap indent JNull = ''null''"
| "serialize gap indent (JBool b) = (if b then ''true'' else ''false'')"
| "serialize gap indent (JNum x) =
     (case x of Fin m e \<Rightarrow> number_to_string x | _ \<Rightarrow> ''null'')"
| "serialize gap indent (JStr s) = quote_json_string s"
| "serialize gap indent (JArr xs) =
     (let stepback = indent; indent = indent @ gap;
          partial = map (serialize gap indent) xs
      in if partial = [] then ''[]''
         else if gap = [] then ''['' @ join '','' partial @ '']''
         else ''['' @ newline # indent @ join ('','' @ newline # indent) partial
              @ newline # stepback @ '']'')"
| "serialize gap indent (JObj ps) =
     (let stepback = indent; indent = indent @ gap;
          partial = map (\<lambda>(k, v). quote_json_string k @ '':'' @ (if gap = [] then [] else '' '')
                                      @ serialize gap indent v) ps
      in if partial = [] then ''{}''
         else if gap = [] then ''{'' @ join '','' partial @ ''}''
         else ''{'' @ newline # indent @ join ('','' @ newline # indent) partial
              @ newline # stepback @ ''}'')"

definition stringify :: "json \<Rightarrow> string" where
  "stringify v = serialize [] [] v"

definition stringify_pretty :: "json \<Rightarrow> string" where
  "stringify_pretty v = serialize ''  '' [] v"

subsection \<open>\<^verbatim>\<open>JSON.parse\<close>\<close>

text \<open>
  The text is cut into tokens (\<open>tokenize\<close>), and the tokens are read by a stack machine
  (\<open>run\<close>) that holds one frame for each array or object still open. A later duplicate of
  a key overwrites the earlier value in place, as in JavaScript. Any text outside the JSON
  grammar is a \<open>SyntaxError\<close>.
\<close>

datatype token = LBRACE | RBRACE | LBRACK | RBRACK | COMMA | COLON | ATOM json

definition is_ws :: "char \<Rightarrow> bool" where
  "is_ws c \<longleftrightarrow> c = CHR '' '' \<or> c = CHR 0x09 \<or> c = CHR 0x0A \<or> c = CHR 0x0D"

definition is_digit :: "char \<Rightarrow> bool" where
  "is_digit c \<longleftrightarrow> c \<in> set ''0123456789''"

definition digit_val :: "char \<Rightarrow> nat" where
  "digit_val c = of_char c - 48"

definition hex_val :: "char \<Rightarrow> nat option" where
  "hex_val c =
     (let n = (of_char c :: nat) in
      if 48 \<le> n \<and> n \<le> 57 then Some (n - 48)
      else if 97 \<le> n \<and> n \<le> 102 then Some (n - 87)
      else if 65 \<le> n \<and> n \<le> 70 then Some (n - 55)
      else None)"

definition nat_of_digits :: "string \<Rightarrow> nat" where
  "nat_of_digits ds = foldl (\<lambda>a c. 10 * a + digit_val c) 0 ds"

function norm10 :: "nat \<Rightarrow> int \<Rightarrow> nat \<times> int" where
  "norm10 m e = (if m = 0 then (0, 0)
                 else if m mod 10 = 0 then norm10 (m div 10) (e + 1)
                 else (m, e))"
  by pat_completeness auto
termination
  by (relation "measure fst") auto

definition mk_num :: "bool \<Rightarrow> nat \<Rightarrow> int \<Rightarrow> jsnum" where
  "mk_num neg m e = (case norm10 m e of (m', e') \<Rightarrow> Fin (if neg then - int m' else int m') e')"

definition cons_tok :: "token \<Rightarrow> error + token list \<Rightarrow> error + token list" where
  "cons_tok t r = (case r of Inl e \<Rightarrow> Inl e | Inr ts \<Rightarrow> Inr (t # ts))"

definition cons_chr :: "char \<Rightarrow> error + string \<times> string \<Rightarrow> error + string \<times> string" where
  "cons_chr c r = (case r of Inl e \<Rightarrow> Inl e | Inr (s, rest) \<Rightarrow> Inr (c # s, rest))"

definition unescape :: "char \<Rightarrow> char option" where
  "unescape e =
     (if e = dquote then Some dquote
      else if e = backslash then Some backslash
      else if e = CHR ''/'' then Some CHR ''/''
      else if e = CHR ''b'' then Some (CHR 0x08)
      else if e = CHR ''f'' then Some (CHR 0x0C)
      else if e = CHR ''n'' then Some (CHR 0x0A)
      else if e = CHR ''r'' then Some (CHR 0x0D)
      else if e = CHR ''t'' then Some (CHR 0x09)
      else None)"

definition hex4 :: "char \<Rightarrow> char \<Rightarrow> char \<Rightarrow> char \<Rightarrow> error + char" where
  "hex4 a b c d =
     (case (hex_val a, hex_val b, hex_val c, hex_val d) of
        (Some h1, Some h2, Some h3, Some h4) \<Rightarrow>
          (let n = ((h1 * 16 + h2) * 16 + h3) * 16 + h4
           in if n < 256 then Inr (char_of n) else Inl Unmodelled)
      | _ \<Rightarrow> Inl SyntaxError)"

definition lex_escape :: "string \<Rightarrow> error + char \<times> string" where
  "lex_escape s =
     (case s of
        [] \<Rightarrow> Inl SyntaxError
      | e # r \<Rightarrow>
          if e = CHR ''u'' then
            (if length r < 4 then Inl SyntaxError
             else (case hex4 (r ! 0) (r ! 1) (r ! 2) (r ! 3) of
                     Inl err \<Rightarrow> Inl err
                   | Inr x \<Rightarrow> Inr (x, drop 4 r)))
          else (case unescape e of None \<Rightarrow> Inl SyntaxError | Some x \<Rightarrow> Inr (x, r)))"

lemma lex_escape_length: "lex_escape s = Inr (x, r) \<Longrightarrow> length r < length s"
  by (cases s) (auto simp: lex_escape_def split: if_splits sum.splits option.splits)

function lex_string :: "string \<Rightarrow> error + string \<times> string" where
  "lex_string [] = Inl SyntaxError"
| "lex_string (c # cs) =
     (if c = dquote then Inr ([], cs)
      else if c = backslash then
        (case lex_escape cs of
           Inl err \<Rightarrow> Inl err
         | Inr (x, r) \<Rightarrow> cons_chr x (lex_string r))
      else if (of_char c :: nat) < 32 then Inl SyntaxError
      else cons_chr c (lex_string cs))"
  by pat_completeness auto
termination
proof (relation "measure length", goal_cases)
  case (2 c cs p x r)
  then show ?case using lex_escape_length[of cs x r] by simp
qed simp_all

definition lex_sign :: "string \<Rightarrow> bool \<times> string" where
  "lex_sign s = (case s of [] \<Rightarrow> (False, s)
                 | c # r \<Rightarrow> if c = CHR ''-'' then (True, r) else (False, s))"

definition lex_frac :: "string \<Rightarrow> (string \<times> string) option" where
  "lex_frac s =
     (case s of
        [] \<Rightarrow> Some ([], s)
      | c # r \<Rightarrow>
          if c = CHR ''.'' then
            (if takeWhile is_digit r = [] then None
             else Some (takeWhile is_digit r, dropWhile is_digit r))
          else Some ([], s))"

definition lex_exp_sign :: "string \<Rightarrow> bool \<times> string" where
  "lex_exp_sign s = (case s of [] \<Rightarrow> (False, s)
                     | c # r \<Rightarrow> if c = CHR ''-'' then (True, r)
                               else if c = CHR ''+'' then (False, r)
                               else (False, s))"

definition lex_exp :: "string \<Rightarrow> (int \<times> string) option" where
  "lex_exp s =
     (case s of
        [] \<Rightarrow> Some (0, s)
      | c # r \<Rightarrow>
          if c = CHR ''e'' \<or> c = CHR ''E'' then
            (case lex_exp_sign r of
               (eneg, r') \<Rightarrow>
                 if takeWhile is_digit r' = [] then None
                 else Some (if eneg then - int (nat_of_digits (takeWhile is_digit r'))
                            else int (nat_of_digits (takeWhile is_digit r')),
                            dropWhile is_digit r'))
          else Some (0, s))"

definition lex_unsigned :: "string \<Rightarrow> (nat \<times> int \<times> string) option" where
  "lex_unsigned s =
     (let ip = takeWhile is_digit s in
      if ip = [] \<or> (hd ip = CHR ''0'' \<and> tl ip \<noteq> []) then None
      else
        (case lex_frac (dropWhile is_digit s) of
           None \<Rightarrow> None
         | Some (fp, s4) \<Rightarrow>
             (case lex_exp s4 of
                None \<Rightarrow> None
              | Some (ex, s7) \<Rightarrow> Some (nat_of_digits (ip @ fp), ex - int (length fp), s7))))"

definition lex_number :: "string \<Rightarrow> error + jsnum \<times> string" where
  "lex_number s =
     (case lex_sign s of
        (neg, s1) \<Rightarrow>
          (case lex_unsigned s1 of
             None \<Rightarrow> Inl SyntaxError
           | Some (m, ex, r) \<Rightarrow> Inr (mk_num neg m ex, r)))"

lemma cons_chr_Inr:
  "cons_chr c r = Inr (s, rest) \<Longrightarrow> \<exists>s'. r = Inr (s', rest)"
  by (auto simp: cons_chr_def split: sum.splits)

lemma lex_string_length: "lex_string s = Inr (x, r) \<Longrightarrow> length r < length s"
proof (induction s arbitrary: x r rule: lex_string.induct)
  case 1
  then show ?case by simp
next
  case (2 c cs)
  show ?case
  proof (cases "c = dquote")
    case True
    with "2.prems" show ?thesis by simp
  next
    case nq: False
    show ?thesis
    proof (cases "c = backslash")
      case True
      from "2.prems" nq True obtain y t where e: "lex_escape cs = Inr (y, t)"
        by (auto split: sum.splits)
      with "2.prems" nq True have "cons_chr y (lex_string t) = Inr (x, r)" by simp
      then obtain s' where "lex_string t = Inr (s', r)" by (blast dest: cons_chr_Inr)
      with "2.IH"(1)[OF nq True e refl] have "length r < length t" by blast
      moreover have "length t < length cs" using e by (rule lex_escape_length)
      ultimately show ?thesis by simp
    next
      case False
      from "2.prems" nq False have c32: "\<not> (of_char c :: nat) < 32" and
        "cons_chr c (lex_string cs) = Inr (x, r)" by (auto split: if_splits)
      then obtain s' where "lex_string cs = Inr (s', r)" by (blast dest: cons_chr_Inr)
      with "2.IH"(2)[OF nq False c32] have "length r < length cs" by blast
      then show ?thesis by simp
    qed
  qed
qed

lemma dropWhile_shorter: "takeWhile P xs \<noteq> [] \<Longrightarrow> length (dropWhile P xs) < length xs"
  by (cases xs) (auto simp: le_imp_less_Suc length_dropWhile_le split: if_splits)

lemma lex_sign_length: "lex_sign s = (b, r) \<Longrightarrow> length r \<le> length s"
  by (auto simp: lex_sign_def split: list.splits if_splits)

lemma lex_exp_sign_length: "lex_exp_sign s = (b, r) \<Longrightarrow> length r \<le> length s"
  by (auto simp: lex_exp_sign_def split: list.splits if_splits)

lemma lex_frac_length: "lex_frac s = Some (fp, r) \<Longrightarrow> length r \<le> length s"
  by (auto simp: lex_frac_def le_SucI length_dropWhile_le split: list.splits if_splits)

lemma lex_exp_length: "lex_exp s = Some (ex, r) \<Longrightarrow> length r \<le> length s"
proof -
  assume a: "lex_exp s = Some (ex, r)"
  show ?thesis
  proof (cases s)
    case Nil
    with a show ?thesis by (simp add: lex_exp_def)
  next
    case (Cons c t)
    show ?thesis
    proof (cases "c = CHR ''e'' \<or> c = CHR ''E''")
      case True
      obtain eneg t' where es: "lex_exp_sign t = (eneg, t')" by (cases "lex_exp_sign t")
      with a Cons True have "r = dropWhile is_digit t'"
        by (auto simp: lex_exp_def split: if_splits)
      moreover have "length t' \<le> length t" using es by (rule lex_exp_sign_length)
      moreover have "length (dropWhile is_digit t') \<le> length t'" by (rule length_dropWhile_le)
      ultimately show ?thesis using Cons by simp
    next
      case False
      with a Cons show ?thesis by (auto simp: lex_exp_def)
    qed
  qed
qed

lemma lex_unsigned_length: "lex_unsigned s = Some (m, ex, r) \<Longrightarrow> length r < length s"
proof -
  assume a: "lex_unsigned s = Some (m, ex, r)"
  from a have ip: "takeWhile is_digit s \<noteq> []"
    by (auto simp: lex_unsigned_def Let_def split: if_splits)
  from a ip obtain fp s4 where fr: "lex_frac (dropWhile is_digit s) = Some (fp, s4)"
    by (auto simp: lex_unsigned_def Let_def split: if_splits option.splits)
  from a ip fr obtain ex' where ex: "lex_exp s4 = Some (ex', r)"
    by (auto simp: lex_unsigned_def Let_def split: if_splits option.splits)
  have "length r \<le> length s4" using ex by (rule lex_exp_length)
  also have "\<dots> \<le> length (dropWhile is_digit s)" using fr by (rule lex_frac_length)
  also have "\<dots> < length s" using ip by (rule dropWhile_shorter)
  finally show ?thesis .
qed

lemma lex_number_length: "lex_number s = Inr (x, r) \<Longrightarrow> length r < length s"
proof -
  assume a: "lex_number s = Inr (x, r)"
  obtain neg s1 where sg: "lex_sign s = (neg, s1)" by (cases "lex_sign s")
  with a obtain m ex where "lex_unsigned s1 = Some (m, ex, r)"
    by (auto simp: lex_number_def split: option.splits)
  then have "length r < length s1" by (rule lex_unsigned_length)
  also have "\<dots> \<le> length s" using sg by (rule lex_sign_length)
  finally show ?thesis .
qed

function tokenize :: "string \<Rightarrow> error + token list" where
  "tokenize [] = Inr []"
| "tokenize (c # cs) =
     (if is_ws c then tokenize cs
      else if c = CHR ''{'' then cons_tok LBRACE (tokenize cs)
      else if c = CHR ''}'' then cons_tok RBRACE (tokenize cs)
      else if c = CHR ''['' then cons_tok LBRACK (tokenize cs)
      else if c = CHR '']'' then cons_tok RBRACK (tokenize cs)
      else if c = CHR '','' then cons_tok COMMA (tokenize cs)
      else if c = CHR '':'' then cons_tok COLON (tokenize cs)
      else if c = dquote then
        (case lex_string cs of Inl e \<Rightarrow> Inl e
         | Inr (s, r) \<Rightarrow> cons_tok (ATOM (JStr s)) (tokenize r))
      else if c = CHR ''-'' \<or> is_digit c then
        (case lex_number (c # cs) of Inl e \<Rightarrow> Inl e
         | Inr (x, r) \<Rightarrow> cons_tok (ATOM (JNum x)) (tokenize r))
      else if take 4 (c # cs) = ''true'' then cons_tok (ATOM (JBool True)) (tokenize (drop 3 cs))
      else if take 5 (c # cs) = ''false'' then cons_tok (ATOM (JBool False)) (tokenize (drop 4 cs))
      else if take 4 (c # cs) = ''null'' then cons_tok (ATOM JNull) (tokenize (drop 3 cs))
      else Inl SyntaxError)"
  by pat_completeness auto
termination
proof (relation "measure length", goal_cases)
  case (9 c cs x s r)
  then show ?case using lex_string_length[of cs s r] by simp
next
  case (10 c cs x xn r)
  then show ?case using lex_number_length[of "c # cs" xn r] by simp
qed simp_all

datatype frame = FArr "json list" | FObj "(string \<times> json) list" | FKey "(string \<times> json) list" string

datatype expect = EValue | EValueOrEnd | EKey | EKeyOrEnd | EColon | ESep | EDone json

fun deliver :: "json \<Rightarrow> frame list \<Rightarrow> (expect \<times> frame list) option" where
  "deliver v [] = Some (EDone v, [])"
| "deliver v (FArr acc # st) = Some (ESep, FArr (acc @ [v]) # st)"
| "deliver v (FKey acc k # st) = Some (ESep, FObj (AList.update k v acc) # st)"
| "deliver v (FObj acc # st) = None"

fun open_value :: "token \<Rightarrow> frame list \<Rightarrow> (expect \<times> frame list) option" where
  "open_value (ATOM a) st = deliver a st"
| "open_value LBRACK st = Some (EValueOrEnd, FArr [] # st)"
| "open_value LBRACE st = Some (EKeyOrEnd, FObj [] # st)"
| "open_value _ st = None"

fun close_top :: "token \<Rightarrow> frame list \<Rightarrow> (expect \<times> frame list) option" where
  "close_top RBRACK (FArr acc # st) = deliver (JArr acc) st"
| "close_top RBRACE (FObj acc # st) = deliver (JObj acc) st"
| "close_top _ _ = None"

fun take_key :: "token \<Rightarrow> frame list \<Rightarrow> (expect \<times> frame list) option" where
  "take_key (ATOM (JStr k)) (FObj acc # st) = Some (EColon, FKey acc k # st)"
| "take_key _ _ = None"

fun separator :: "frame list \<Rightarrow> (expect \<times> frame list) option" where
  "separator (FArr acc # st) = Some (EValue, FArr acc # st)"
| "separator (FObj acc # st) = Some (EKey, FObj acc # st)"
| "separator _ = None"

fun step :: "token \<Rightarrow> expect \<times> frame list \<Rightarrow> (expect \<times> frame list) option" where
  "step t (EValue, st) = open_value t st"
| "step t (EValueOrEnd, st) = (if t = RBRACK then close_top t st else open_value t st)"
| "step t (EKey, st) = take_key t st"
| "step t (EKeyOrEnd, st) = (if t = RBRACE then close_top t st else take_key t st)"
| "step t (EColon, st) = (if t = COLON then Some (EValue, st) else None)"
| "step t (ESep, st) = (if t = COMMA then separator st else close_top t st)"
| "step t (EDone v, st) = None"

fun run :: "token list \<Rightarrow> expect \<times> frame list \<Rightarrow> (expect \<times> frame list) option" where
  "run [] s = Some s"
| "run (t # ts) s = (case step t s of None \<Rightarrow> None | Some s' \<Rightarrow> run ts s')"

definition parse_tokens :: "token list \<Rightarrow> error + json" where
  "parse_tokens ts = (case run ts (EValue, []) of
                        Some (EDone v, []) \<Rightarrow> Inr v
                      | _ \<Rightarrow> Inl SyntaxError)"

definition JSON_parse :: "string \<Rightarrow> error + json" where
  "JSON_parse s = (case tokenize s of Inl e \<Rightarrow> Inl e | Inr ts \<Rightarrow> parse_tokens ts)"

subsection \<open>Values that survive serialisation\<close>

text \<open>
  \<open>wf_json\<close> holds of the values a JSON text denotes: object keys are unique and every
  number is finite and in canonical decimal form. \<open>tokens\<close> is the token sequence of a
  value; it is used to state what \<open>tokenize\<close> returns on a serialised value.
  \<open>through_json v\<close> is \<open>v\<close> with \<^verbatim>\<open>null\<close> in the place of every number that is not finite,
  \<open>all_finite v\<close> says that \<open>v\<close> has no such number, and \<open>js_value v\<close> that \<open>v\<close> is a value
  as a JavaScript program can hold it: unique keys and canonical decimals, finite or not.
\<close>

fun tokens :: "json \<Rightarrow> token list" where
  "tokens (JArr xs) = LBRACK # join [COMMA] (map tokens xs) @ [RBRACK]"
| "tokens (JObj ps) =
     LBRACE # join [COMMA] (map (\<lambda>(k, v). ATOM (JStr k) # COLON # tokens v) ps) @ [RBRACE]"
| "tokens v = [ATOM v]"

definition wf_num :: "jsnum \<Rightarrow> bool" where
  "wf_num x = (case x of Fin m e \<Rightarrow> (if m = 0 then e = 0 else m mod 10 \<noteq> 0) | _ \<Rightarrow> False)"

fun wf_json :: "json \<Rightarrow> bool" where
  "wf_json (JNum x) = wf_num x"
| "wf_json (JArr xs) = list_all wf_json xs"
| "wf_json (JObj ps) = (distinct (map fst ps) \<and> list_all (\<lambda>(k, v). wf_json v) ps)"
| "wf_json _ = True"

fun through_json :: "json \<Rightarrow> json" where
  "through_json (JNum x) = (case x of Fin m e \<Rightarrow> JNum x | _ \<Rightarrow> JNull)"
| "through_json (JArr xs) = JArr (map through_json xs)"
| "through_json (JObj ps) = JObj (map (\<lambda>(k, v). (k, through_json v)) ps)"
| "through_json v = v"

fun all_finite :: "json \<Rightarrow> bool" where
  "all_finite (JNum x) = (case x of Fin m e \<Rightarrow> True | _ \<Rightarrow> False)"
| "all_finite (JArr xs) = list_all all_finite xs"
| "all_finite (JObj ps) = list_all (\<lambda>(k, v). all_finite v) ps"
| "all_finite v = True"

definition js_value :: "json \<Rightarrow> bool" where
  "js_value v = wf_json (through_json v)"

definition ok_follow :: "string \<Rightarrow> bool" where
  "ok_follow r \<longleftrightarrow> r = [] \<or> (\<not> is_digit (hd r) \<and> hd r \<noteq> CHR ''.'' \<and> hd r \<noteq> CHR ''e'' \<and> hd r \<noteq> CHR ''E'')"

definition toks_then :: "token list \<Rightarrow> error + token list \<Rightarrow> error + token list" where
  "toks_then ts r = (case r of Inl e \<Rightarrow> Inl e | Inr ts' \<Rightarrow> Inr (ts @ ts'))"

definition ws_only :: "string \<Rightarrow> bool" where
  "ws_only w \<longleftrightarrow> (\<forall>c\<in>set w. is_ws c)"

section \<open>The program\<close>

subsection \<open>Property access\<close>

text \<open>
  A value of type \<open>jsval\<close> is a JSON value or \<^verbatim>\<open>undefined\<close> (\<open>None\<close>). \<open>get_prop\<close> is
  the read \<^verbatim>\<open>v.k\<close> for the names the program reads (none of them is \<^verbatim>\<open>length\<close>, an
  index or an inherited property), \<open>get_index\<close> is \<^verbatim>\<open>v[i]\<close>, \<open>set_prop\<close> is
  \<^verbatim>\<open>v.k = x\<close> and \<open>set_index\<close> is \<^verbatim>\<open>v[i] = x\<close>, in strict mode (the file is a module):
  reading from or writing to \<^verbatim>\<open>undefined\<close> or \<^verbatim>\<open>null\<close>, and writing to a primitive,
  throw a \<^verbatim>\<open>TypeError\<close>. A named property written to an array and an array written
  past its end are outside the model (\<open>Unmodelled\<close>).

  \<^verbatim>\<open>JSON.parse\<close> returns a tree: no object is reachable by two paths. A reference the
  program keeps to an element of a page is therefore modelled by the key of that
  element: a function that mutates the elements of an array returns their new values, and
  the caller stores them back under their keys (\<open>store_elements\<close>).
\<close>

type_synonym jsval = "json option"

definition and_then :: "error + 'a \<Rightarrow> ('a \<Rightarrow> error + 'b) \<Rightarrow> error + 'b" where
  "and_then m f = (case m of Inl e \<Rightarrow> Inl e | Inr x \<Rightarrow> f x)"

fun map_err :: "('a \<Rightarrow> error + 'b) \<Rightarrow> 'a list \<Rightarrow> error + 'b list" where
  "map_err f [] = Inr []"
| "map_err f (x # xs) = and_then (f x) (\<lambda>y. and_then (map_err f xs) (\<lambda>ys. Inr (y # ys)))"

fun fold_err :: "('a \<Rightarrow> 's \<Rightarrow> error + 's) \<Rightarrow> 'a list \<Rightarrow> 's \<Rightarrow> error + 's" where
  "fold_err f [] s = Inr s"
| "fold_err f (x # xs) s = and_then (f x s) (fold_err f xs)"

definition get_prop :: "jsval \<Rightarrow> string \<Rightarrow> error + jsval" where
  "get_prop v k = (case v of
      None \<Rightarrow> Inl TypeError
    | Some JNull \<Rightarrow> Inl TypeError
    | Some (JObj ps) \<Rightarrow> Inr (map_of ps k)
    | Some _ \<Rightarrow> Inr None)"

definition get_index :: "jsval \<Rightarrow> nat \<Rightarrow> error + jsval" where
  "get_index v i = (case v of
      None \<Rightarrow> Inl TypeError
    | Some JNull \<Rightarrow> Inl TypeError
    | Some (JArr xs) \<Rightarrow> Inr (if i < length xs then Some (xs ! i) else None)
    | Some (JObj ps) \<Rightarrow> Inr (map_of ps (digits i))
    | Some (JStr s) \<Rightarrow> Inr (if i < length s then Some (JStr [s ! i]) else None)
    | Some _ \<Rightarrow> Inr None)"

definition set_prop :: "jsval \<Rightarrow> string \<Rightarrow> json \<Rightarrow> error + json" where
  "set_prop v k x = (case v of
      Some (JObj ps) \<Rightarrow> Inr (JObj (AList.update k x ps))
    | Some (JArr xs) \<Rightarrow> Inl Unmodelled
    | _ \<Rightarrow> Inl TypeError)"

definition set_index :: "jsval \<Rightarrow> nat \<Rightarrow> json \<Rightarrow> error + json" where
  "set_index v i x = (case v of
      Some (JArr xs) \<Rightarrow>
        if i < length xs then Inr (JArr (xs[i := x]))
        else if i = length xs then Inr (JArr (xs @ [x]))
        else Inl Unmodelled
    | Some (JObj ps) \<Rightarrow> Inr (JObj (AList.update (digits i) x ps))
    | _ \<Rightarrow> Inl TypeError)"

definition entries :: "jsval \<Rightarrow> error + (string \<times> json) list" where
  "entries v = (case v of
      None \<Rightarrow> Inl TypeError
    | Some JNull \<Rightarrow> Inl TypeError
    | Some (JObj ps) \<Rightarrow> Inr ps
    | Some (JArr xs) \<Rightarrow> Inr (zip (map digits [0..<length xs]) xs)
    | Some (JStr s) \<Rightarrow> Inr (zip (map digits [0..<length s]) (map (\<lambda>c. JStr [c]) s))
    | Some _ \<Rightarrow> Inr [])"

definition copyOBJ :: "jsval \<Rightarrow> error + json" where
  "copyOBJ obj = JSON_parse (case obj of None \<Rightarrow> ''undefined'' | Some v \<Rightarrow> stringify v)"

definition num_of_int :: "int \<Rightarrow> jsnum" where
  "num_of_int i = mk_num (i < 0) (nat \<bar>i\<bar>) 0"

definition num_add :: "jsnum \<Rightarrow> jsnum \<Rightarrow> jsnum" where
  "num_add a b = (case (a, b) of
      (Fin m e, Fin n f) \<Rightarrow>
        (let g = min e f; s = m * 10 ^ nat (e - g) + n * 10 ^ nat (f - g)
         in mk_num (s < 0) (nat \<bar>s\<bar>) g)
    | (NaN, _) \<Rightarrow> NaN
    | (_, NaN) \<Rightarrow> NaN
    | (PosInf, NegInf) \<Rightarrow> NaN
    | (NegInf, PosInf) \<Rightarrow> NaN
    | (PosInf, _) \<Rightarrow> PosInf
    | (_, PosInf) \<Rightarrow> PosInf
    | (NegInf, _) \<Rightarrow> NegInf
    | (_, NegInf) \<Rightarrow> NegInf)"

definition set_position_y :: "jsval \<Rightarrow> jsnum \<Rightarrow> error + json" where
  "set_position_y el y =
     and_then (get_prop el ''position'') (\<lambda>position.
     and_then (set_prop position ''y'' (JNum y)) (\<lambda>position'.
     set_prop el ''position'' position'))"

definition element :: "jsval list \<Rightarrow> nat \<Rightarrow> jsval" where
  "element xs i = (if i < length xs then xs ! i else None)"

definition setFooterPositions :: "jsnum \<Rightarrow> jsval list \<Rightarrow> error + jsval list" where
  "setFooterPositions fromY footerElements =
     and_then (set_position_y (element footerElements 0) fromY) (\<lambda>e0.
     and_then (set_position_y (element footerElements 1) (num_add fromY (Fin 16 0))) (\<lambda>e1.
     and_then (set_position_y (element footerElements 2) (num_add fromY (Fin 14 0))) (\<lambda>e2.
     and_then (set_position_y (element footerElements 3) (num_add fromY (Fin 25 0))) (\<lambda>e3.
     Inr (map Some [e0, e1, e2, e3] @ drop 4 footerElements)))))"

definition setHeaderPositions :: "jsnum \<Rightarrow> jsval list \<Rightarrow> error + jsval list" where
  "setHeaderPositions fromY headerElements =
     and_then (set_position_y (element headerElements 0) fromY) (\<lambda>e0.
     and_then (set_position_y (element headerElements 1) (num_add fromY (Fin 1 1))) (\<lambda>e1.
     and_then (set_position_y (element headerElements 2) (num_add fromY (Fin 124 (- 1)))) (\<lambda>e2.
     and_then (set_position_y (element headerElements 3) (num_add fromY (Fin 5 0))) (\<lambda>e3.
     and_then (set_position_y (element headerElements 4) (num_add fromY (Fin 33 0))) (\<lambda>e4.
     and_then (set_position_y (element headerElements 5) (num_add fromY (Fin 35 0))) (\<lambda>e5.
     and_then (set_position_y (element headerElements 6) (num_add fromY (Fin 41 0))) (\<lambda>e6.
     and_then (set_position_y (element headerElements 7) (num_add fromY (Fin 55 0))) (\<lambda>e7.
     and_then (set_position_y (element headerElements 8) (num_add fromY (Fin 59 0))) (\<lambda>e8.
     and_then (set_position_y (element headerElements 9) (num_add fromY (Fin 59 0))) (\<lambda>e9.
     and_then (set_position_y (element headerElements 10) (num_add fromY (Fin 67 0))) (\<lambda>e10.
     Inr (map Some [e0, e1, e2, e3, e4, e5, e6, e7, e8, e9, e10]
          @ drop 11 headerElements))))))))))))"

subsection \<open>The generate handler: pagination and field fill\<close>

text \<open>
  \<open>sample_rows n\<close> is the table \<^verbatim>\<open>new Array(n).fill(row).map(...)\<close>; the program builds
  it with \<open>n = 35\<close>. \<open>fill rows templateJSON\<close> is the body of the click handler from the
  parsed snapshot to the call of the external generator, whose two arguments (the expanded
  document and the value map) it returns. \<open>add_page\<close> is one iteration of its loop.
\<close>

definition row :: json where
  "row = JArr [JStr (''24 May, 2024'' @ [newline] @ ''202401:13:37 PM''),
               JStr ''Payment link'',
               JStr (''1.09 USD'' @ [newline] @ ''1.11 USDT''),
               JStr ''-'',
               JStr ''1.59 USD'']"

definition sample_rows :: "nat \<Rightarrow> error + json list" where
  "sample_rows n =
     map_err (\<lambda>i. and_then (copyOBJ (Some row)) (\<lambda>copy.
                     set_index (Some copy) 3 (JStr (digits i))))
       [0..<n]"

definition PAGE_1_TABLE_ROWS_MAX :: nat where "PAGE_1_TABLE_ROWS_MAX = 4"
definition PAGE_2_TABLE_ROWS_MAX :: nat where "PAGE_2_TABLE_ROWS_MAX = 7"

definition header_keys :: "string list" where
  "header_keys = [''header_rect'', ''logo'', ''header_rect_hr'', ''lunu_address'',
                  ''header_title'', ''period_title'', ''period'', ''table_header_rect'',
                  ''table_header_title'', ''table_period'', ''table'']"

definition footer_keys :: "string list" where
  "footer_keys = [''footer_el_1'', ''footer_el_2'', ''footer_el_3'', ''pages'']"

definition page_key :: "nat \<Rightarrow> string \<Rightarrow> nat \<Rightarrow> string" where
  "page_key pageN kind i = ''page_'' @ digits pageN @ ''_'' @ kind @ ''_'' @ digits i"

definition page_label :: "nat \<Rightarrow> nat \<Rightarrow> string" where
  "page_label pageN pageCount = ''Page '' @ digits pageN @ '' of '' @ digits pageCount"

definition store_element :: "string \<times> jsval \<Rightarrow> jsval \<Rightarrow> error + jsval" where
  "store_element = (\<lambda>(k, el) obj.
     case el of None \<Rightarrow> Inr obj
     | Some e \<Rightarrow> and_then (set_prop obj k e) (\<lambda>obj'. Inr (Some obj')))"

definition store_elements :: "string list \<Rightarrow> jsval list \<Rightarrow> jsval \<Rightarrow> error + jsval" where
  "store_elements keys els obj = fold_err store_element (zip keys els) obj"

definition copy_element :: "nat \<Rightarrow> string \<Rightarrow> nat \<times> jsval \<Rightarrow> jsval list \<times> json \<Rightarrow> error + jsval list \<times> json" where
  "copy_element pageN kind = (\<lambda>(i, el) (copies, page).
     and_then (copyOBJ el) (\<lambda>copy.
     and_then (set_prop (Some page) (page_key pageN kind (i + 1)) copy) (\<lambda>page'.
     Inr (copies @ [Some copy], page'))))"

definition copy_elements :: "nat \<Rightarrow> string \<Rightarrow> jsval list \<Rightarrow> json \<Rightarrow> error + jsval list \<times> json" where
  "copy_elements pageN kind els page =
     fold_err (copy_element pageN kind) (zip [0..<length els] els) ([], page)"

definition copy_rule :: "nat \<Rightarrow> jsval \<Rightarrow> nat \<Rightarrow> json \<Rightarrow> error + json" where
  "copy_rule pageN schema i page =
     and_then (get_prop schema (''field'' @ digits (28 + i))) (\<lambda>field.
     and_then (copyOBJ field) (\<lambda>hr.
     and_then (set_position_y (Some hr) (Fin 9 1)) (\<lambda>hr'.
     set_prop (Some page) (page_key pageN ''table_hr'' (i + 1)) hr')))"

definition copy_rules :: "nat \<Rightarrow> jsval \<Rightarrow> json \<Rightarrow> error + json" where
  "copy_rules pageN schema page = fold_err (copy_rule pageN schema) [0..<115 - 28] page"

record fill_state =
  st_schemas :: jsval
  st_inputs :: "string \<rightharpoonup> jsval"
  st_tableData :: "json list"

definition add_page :: "jsval \<Rightarrow> jsval list \<Rightarrow> jsval list \<Rightarrow> nat \<Rightarrow> nat \<Rightarrow> fill_state \<Rightarrow> error + fill_state" where
  "add_page schema headerElements footerElements pagesLength pageI st =
     (let nextTableData = take PAGE_2_TABLE_ROWS_MAX (st_tableData st);
          pageN = pageI + 1
      in
      and_then (copy_elements pageN ''header_el'' headerElements (JObj [])) (\<lambda>(nextHeaderElements, page1).
      and_then (copy_elements pageN ''footer_el'' footerElements page1) (\<lambda>(nextFooterElements, page2).
      and_then (copy_rules pageN schema page2) (\<lambda>page3.
      and_then (get_prop schema ''period'') (\<lambda>period.
      and_then (get_prop period ''content'') (\<lambda>period_content.
      and_then (get_prop schema ''table_period'') (\<lambda>table_period.
      and_then (get_prop table_period ''content'') (\<lambda>table_period_content.
      and_then (setHeaderPositions (Fin 1 1) nextHeaderElements) (\<lambda>hs.
      and_then (store_elements (map (\<lambda>i. page_key pageN ''header_el'' (i + 1)) [0..<length hs]) hs (Some page3)) (\<lambda>page4.
      and_then (setFooterPositions (Fin 215 0) nextFooterElements) (\<lambda>fs.
      and_then (store_elements (map (\<lambda>i. page_key pageN ''footer_el'' (i + 1)) [0..<length fs]) fs page4) (\<lambda>page5.
      and_then (case page5 of None \<Rightarrow> Inl TypeError | Some p \<Rightarrow> set_index (st_schemas st) pageI p) (\<lambda>schemas'.
      Inr \<lparr> st_schemas = Some schemas',
            st_inputs = (st_inputs st)
              (page_key pageN ''header_el'' (length nextHeaderElements) \<mapsto> Some (JStr (stringify (JArr nextTableData))),
               page_key pageN ''header_el'' 7 \<mapsto> period_content,
               page_key pageN ''header_el'' 10 \<mapsto> table_period_content,
               page_key pageN ''footer_el'' (length nextFooterElements) \<mapsto> Some (JStr (page_label pageN (pagesLength + 1)))),
            st_tableData = drop PAGE_2_TABLE_ROWS_MAX (st_tableData st) \<rparr>)))))))))))))"

definition copy_text :: "string \<times> json \<Rightarrow> (string \<rightharpoonup> jsval) \<Rightarrow> error + (string \<rightharpoonup> jsval)" where
  "copy_text = (\<lambda>(key, el) inputs.
     and_then (get_prop (Some el) ''type'') (\<lambda>type.
       if type = Some (JStr ''text'') then
         (if key = ''__proto__'' then Inl Unmodelled
          else and_then (get_prop (Some el) ''content'') (\<lambda>content. Inr (inputs(key \<mapsto> content))))
       else Inr inputs))"

definition fill :: "json list \<Rightarrow> json \<Rightarrow> error + json \<times> (string \<rightharpoonup> jsval)" where
  "fill rows templateJSON =
     and_then (get_prop (Some templateJSON) ''schemas'') (\<lambda>schemas0.
     and_then (get_index schemas0 0) (\<lambda>schema.
     and_then (map_err (get_prop schema) header_keys) (\<lambda>headerElements.
     and_then (map_err (get_prop schema) footer_keys) (\<lambda>footerElements.
     and_then
       (if length rows > PAGE_1_TABLE_ROWS_MAX then
          (let inputs1 = [''table'' \<mapsto> Some (JStr (stringify (JArr (take PAGE_1_TABLE_ROWS_MAX rows))))];
               rest = drop PAGE_1_TABLE_ROWS_MAX rows
           in
           and_then (setFooterPositions (num_of_int (277 - 21 * (int PAGE_1_TABLE_ROWS_MAX - 1))) footerElements) (\<lambda>fs.
           and_then (store_elements footer_keys fs schema) (\<lambda>schema1.
           let pagesLength = nat \<lceil>real (length rest) / real PAGE_2_TABLE_ROWS_MAX\<rceil> in
           and_then (fold_err (add_page schema1 headerElements fs pagesLength) [1..<pagesLength + 1]
                       \<lparr> st_schemas = schemas0, st_inputs = inputs1, st_tableData = rest \<rparr>) (\<lambda>st.
           let label = JStr (page_label 1 (pagesLength + 1)) in
           and_then (get_prop schema1 ''pages'') (\<lambda>pages.
           and_then (set_prop pages ''content'' label) (\<lambda>pages'.
           and_then (set_prop schema1 ''pages'' pages') (\<lambda>schema2.
           Inr (st_schemas st, Some schema2, (st_inputs st)(''pages'' \<mapsto> Some label)))))))))
        else
          (let inputs1 = [''table'' \<mapsto> Some (JStr (stringify (JArr rows)))] in
           and_then (setFooterPositions (num_of_int (277 - 21 * (int (length rows) - 1))) footerElements) (\<lambda>fs.
           and_then (store_elements footer_keys fs schema) (\<lambda>schema1.
           Inr (schemas0, schema1, inputs1(''pages'' \<mapsto> Some (JStr ''Page 1 of 1''))))))) (\<lambda>(schemas1, schema1, inputs1).
     and_then (entries schema1) (\<lambda>es.
     and_then (fold_err copy_text es inputs1) (\<lambda>inputs2.
     and_then (case schema1 of None \<Rightarrow> Inl TypeError | Some s \<Rightarrow> set_index schemas1 0 s) (\<lambda>schemas2.
     and_then (set_prop (Some templateJSON) ''schemas'' schemas2) (\<lambda>templateJSON'.
     Inr (templateJSON', inputs2))))))))))"

subsection \<open>The event handlers\<close>

text \<open>
  The state of the page: the document held by the designer widget, the browser store, the
  autosave checkbox, the console and the calls made to the external generator. The widget
  is external; of it the program uses \<^verbatim>\<open>getTemplate\<close> and \<^verbatim>\<open>updateTemplate\<close>, modelled
  as reading and replacing the document. A handler returns \<open>Inl e\<close> when the exception
  \<open>e\<close> escapes it, or when its input is outside the model (\<open>Unmodelled\<close>).
  \<open>parseFloat\<close> reads the longest decimal literal at the start of a string. A literal of
  at most 15 significant digits with a decimal exponent between \<open>-300\<close> and \<open>300\<close> denotes
  a double whose shortest decimal it is, and \<open>parseFloat\<close> returns that decimal; on any other
  literal (one that is rounded, overflows, underflows or is a negative zero) the model
  answers \<open>Unmodelled\<close>.
\<close>

definition is_str_ws :: "char \<Rightarrow> bool" where
  "is_str_ws c \<longleftrightarrow> c \<in> {CHR 0x09, CHR 0x0A, CHR 0x0B, CHR 0x0C, CHR 0x0D, CHR 0x20, CHR 0xA0}"

definition float_digits :: "string \<Rightarrow> (string \<times> string \<times> string) option" where
  "float_digits s =
     (let ip = takeWhile is_digit s; s1 = dropWhile is_digit s
      in case s1 of
           c # s2 \<Rightarrow>
             if c = CHR ''.'' then
               (let fp = takeWhile is_digit s2
                in if ip = [] \<and> fp = [] then None else Some (ip, fp, dropWhile is_digit s2))
             else if ip = [] then None else Some (ip, [], s1)
         | [] \<Rightarrow> if ip = [] then None else Some (ip, [], s1))"

definition float_exponent :: "string \<Rightarrow> int" where
  "float_exponent s = (case lex_exp s of None \<Rightarrow> 0 | Some (ex, r) \<Rightarrow> ex)"

definition exact_decimal :: "nat \<Rightarrow> int \<Rightarrow> bool" where
  "exact_decimal m e = (case norm10 m e of (m', e') \<Rightarrow> m' < 10 ^ 15 \<and> - 300 \<le> e' \<and> e' \<le> 285)"

definition parseFloat :: "string \<Rightarrow> error + jsnum" where
  "parseFloat s =
     (let s1 = dropWhile is_str_ws s;
          (neg, s2) = (case s1 of
                         c # r \<Rightarrow> if c = CHR ''-'' then (True, r)
                                  else if c = CHR ''+'' then (False, r)
                                  else (False, s1)
                       | [] \<Rightarrow> (False, s1))
      in if take 8 s2 = ''Infinity'' then Inr (if neg then NegInf else PosInf)
         else (case float_digits s2 of
                 None \<Rightarrow> Inr NaN
               | Some (ip, fp, s3) \<Rightarrow>
                   (let m = nat_of_digits (ip @ fp);
                        e = float_exponent s3 - int (length fp)
                    in if exact_decimal m e \<and> \<not> (neg \<and> m = 0) then Inr (mk_num neg m e)
                       else Inl Unmodelled)))"

record app =
  designer_template :: json
  localStorage :: "string \<rightharpoonup> string"
  autosave_checked :: bool
  console :: "string list"
  generated :: "(json \<times> (string \<rightharpoonup> jsval) list) list"

definition getTemplate :: "app \<Rightarrow> json" where
  "getTemplate s = designer_template s"

definition updateTemplate :: "json \<Rightarrow> app \<Rightarrow> app" where
  "updateTemplate t s = s\<lparr> designer_template := t \<rparr>"

definition getTemplateJSONString :: "app \<Rightarrow> string" where
  "getTemplateJSONString s = stringify_pretty (getTemplate s)"

definition getTemplateJSON :: "app \<Rightarrow> error + json" where
  "getTemplateJSON s = JSON_parse (getTemplateJSONString s)"

definition saveTemplate :: "app \<Rightarrow> app" where
  "saveTemplate s = s\<lparr> localStorage := (localStorage s)(''template'' \<mapsto> getTemplateJSONString s) \<rparr>"

definition console_error :: "string \<Rightarrow> app \<Rightarrow> app" where
  "console_error msg s = s\<lparr> console := console s @ [msg] \<rparr>"

definition upload_onload :: "string \<Rightarrow> app \<Rightarrow> error + app" where
  "upload_onload result s =
     (if result = [] then Inr s
      else (case JSON_parse result of
              Inr json \<Rightarrow> Inr (updateTemplate json s)
            | Inl Unmodelled \<Rightarrow> Inl Unmodelled
            | Inl _ \<Rightarrow> Inr (console_error ''JSON Parsing Error:'' s)))"

definition save_click :: "app \<Rightarrow> app" where
  "save_click s = saveTemplate s"

definition autosave_initial :: "(string \<rightharpoonup> string) \<Rightarrow> bool" where
  "autosave_initial store = (case store ''autosave'' of None \<Rightarrow> False | Some v \<Rightarrow> v \<noteq> [])"

definition autosave_change :: "app \<Rightarrow> app" where
  "autosave_change s =
     (if autosave_checked s then s\<lparr> localStorage := (localStorage s)(''autosave'' \<mapsto> ''true'') \<rparr>
      else s\<lparr> localStorage := (localStorage s)(''autosave'' := None) \<rparr>)"

definition onChangeTemplate :: "app \<Rightarrow> app" where
  "onChangeTemplate s = (if autosave_checked s then saveTemplate s else s)"

definition generate_click :: "app \<Rightarrow> error + app" where
  "generate_click s =
     (case and_then (getTemplateJSON s) (\<lambda>templateJSON.
           and_then (sample_rows 35) (\<lambda>rows. fill rows templateJSON)) of
        Inr (templateJSON, inputs) \<Rightarrow> Inr (s\<lparr> generated := generated s @ [(templateJSON, [inputs])] \<rparr>)
      | Inl Unmodelled \<Rightarrow> Inl Unmodelled
      | Inl _ \<Rightarrow> Inr (console_error ''PFD generation error:'' s))"

definition padding_change :: "nat \<Rightarrow> string \<Rightarrow> app \<Rightarrow> error + app" where
  "padding_change i v s =
     and_then (getTemplateJSON s) (\<lambda>template.
     and_then (get_prop (Some template) ''basePdf'') (\<lambda>basePdf.
     and_then (get_prop basePdf ''padding'') (\<lambda>padding.
     and_then (parseFloat v) (\<lambda>x.
     and_then (set_index padding i (JNum x)) (\<lambda>padding'.
     and_then (set_prop basePdf ''padding'' padding') (\<lambda>basePdf'.
     and_then (set_prop (Some template) ''basePdf'' basePdf') (\<lambda>template'.
     Inr (updateTemplate template' s))))))))"

definition padding_of :: "json \<Rightarrow> error + jsval" where
  "padding_of t = and_then (get_prop (Some t) ''basePdf'') (\<lambda>basePdf. get_prop basePdf ''padding'')"

subsection \<open>A template of the expected layout\<close>

text \<open>
  A page with the eleven header elements (text fields and the table), the four footer
  elements and the fields \<^verbatim>\<open>field28\<close> to \<^verbatim>\<open>field114\<close>, used to instantiate the
  theorems below. \<open>nan_app\<close> is the state that \<open>sample_app\<close> reaches when \<^verbatim>\<open>abc\<close> is
  entered in its second padding field.
\<close>

definition text_field :: "string \<Rightarrow> int \<Rightarrow> json" where
  "text_field c y = JObj [(''type'', JStr ''text''), (''content'', JStr c),
                         (''position'', JObj [(''x'', JNum (Fin 1 1)), (''y'', JNum (Fin y 0))])]"

definition line_field :: "int \<Rightarrow> json" where
  "line_field y = JObj [(''type'', JStr ''line''),
                       (''position'', JObj [(''x'', JNum (Fin 1 1)), (''y'', JNum (Fin y 0))])]"

definition table_field :: "int \<Rightarrow> json" where
  "table_field y = JObj [(''type'', JStr ''table''),
                        (''position'', JObj [(''x'', JNum (Fin 1 1)), (''y'', JNum (Fin y 0))])]"

definition sample_fields :: "(string \<times> json) list" where
  "sample_fields =
     map (\<lambda>k. (k, if k = ''table'' then table_field 77 else text_field k 11)) header_keys
     @ map (\<lambda>k. (k, text_field k 277)) footer_keys
     @ map (\<lambda>i. (''field'' @ digits i, line_field 73)) [28..<115]"

definition sample_page :: json where
  "sample_page = JObj sample_fields"

definition sample_template :: json where
  "sample_template = JObj [(''schemas'', JArr [sample_page]),
                           (''basePdf'', JObj [(''width'', JNum (Fin 21 1)), (''height'', JNum (Fin 297 0)),
                                              (''padding'', JArr [JNum (Fin 0 0), JNum (Fin 0 0), JNum (Fin 0 0), JNum (Fin 0 0)])])]"

definition sample_app :: app where
  "sample_app = \<lparr>designer_template = sample_template, localStorage = Map.empty,
                  autosave_checked = False, console = [], generated = []\<rparr>"

definition nan_template :: json where
  "nan_template = JObj [(''schemas'', JArr [sample_page]),
                        (''basePdf'', JObj [(''width'', JNum (Fin 21 1)), (''height'', JNum (Fin 297 0)),
                                           (''padding'', JArr [JNum (Fin 0 0), JNum NaN, JNum (Fin 0 0), JNum (Fin 0 0)])])]"

definition nan_app :: app where
  "nan_app = sample_app\<lparr>designer_template := nan_template\<rparr>"

subsection \<open>The expected result of the generate handler\<close>

text \<open>
  The definitions of this subsection describe what the handler is expected to produce; the
  model above does not use them. \<open>reposition y el\<close> is the element \<open>el\<close> with the \<^verbatim>\<open>y\<close>
  of its \<^verbatim>\<open>position\<close> replaced, \<open>header_ys\<close> and \<open>footer_ys\<close> are the vertical positions that
  the two positioning functions assign from an anchor, and \<open>with_content c el\<close> is \<open>el\<close> with
  the content \<open>c\<close>. A page \<open>fs\<close> (its fields in order) fits the layout when the eleven header
  fields, the four footer fields and \<^verbatim>\<open>field28\<close> to \<^verbatim>\<open>field114\<close> are objects with a
  \<^verbatim>\<open>position\<close> object, no field is \<^verbatim>\<open>null\<close> and no text field is called \<^verbatim>\<open>__proto__\<close>.
  \<open>expected_page fs n\<close> is page \<open>n\<close> as the handler should add it, \<open>first_page c fs\<close> the
  first page as it should leave it when there are \<open>c\<close> pages, \<open>page_rows rows n\<close> the rows of
  the table shown on page \<open>n\<close>, and \<open>text_inputs\<close> the values that the loop over the text
  fields of a page writes to the value map.
\<close>

definition positioned :: "json \<Rightarrow> bool" where
  "positioned el = (case el of
      JObj es \<Rightarrow> (case map_of es ''position'' of Some (JObj ps) \<Rightarrow> True | _ \<Rightarrow> False)
    | _ \<Rightarrow> False)"

definition reposition :: "jsnum \<Rightarrow> json \<Rightarrow> json" where
  "reposition y el = (case el of
      JObj es \<Rightarrow> (case map_of es ''position'' of
                   Some (JObj ps) \<Rightarrow>
                     JObj (AList.update ''position'' (JObj (AList.update ''y'' (JNum y) ps)) es)
                 | _ \<Rightarrow> el)
    | _ \<Rightarrow> el)"

definition footer_ys :: "jsnum \<Rightarrow> jsnum list" where
  "footer_ys fromY = [fromY, num_add fromY (Fin 16 0), num_add fromY (Fin 14 0), num_add fromY (Fin 25 0)]"

definition header_ys :: "jsnum \<Rightarrow> jsnum list" where
  "header_ys fromY = [fromY, num_add fromY (Fin 1 1), num_add fromY (Fin 124 (- 1)),
     num_add fromY (Fin 5 0), num_add fromY (Fin 33 0), num_add fromY (Fin 35 0),
     num_add fromY (Fin 41 0), num_add fromY (Fin 55 0), num_add fromY (Fin 59 0),
     num_add fromY (Fin 59 0), num_add fromY (Fin 67 0)]"

definition page_keys :: "nat \<Rightarrow> string \<Rightarrow> nat \<Rightarrow> string list" where
  "page_keys pageN kind n = map (\<lambda>i. page_key pageN kind (i + 1)) [0..<n]"

definition field_key :: "nat \<Rightarrow> string" where
  "field_key i = ''field'' @ digits (28 + i)"

definition rule_copies :: "(string \<times> json) list \<Rightarrow> nat \<Rightarrow> (string \<times> json) list" where
  "rule_copies fs pageN =
     map (\<lambda>i. (page_key pageN ''table_hr'' (i + 1), reposition (Fin 9 1) (the (map_of fs (field_key i)))))
       [0..<87]"

definition new_page :: "(string \<times> json) list \<Rightarrow> json list \<Rightarrow> json list \<Rightarrow> nat \<Rightarrow> json" where
  "new_page fs hs ftrs pageN =
     JObj (zip (page_keys pageN ''header_el'' 11) (map2 reposition (header_ys (Fin 1 1)) hs)
           @ zip (page_keys pageN ''footer_el'' 4) (map2 reposition (footer_ys (Fin 215 0)) ftrs)
           @ rule_copies fs pageN)"

definition layout_field :: "(string \<times> json) list \<Rightarrow> string \<Rightarrow> bool" where
  "layout_field fs k = (case map_of fs k of Some el \<Rightarrow> positioned el | None \<Rightarrow> False)"

definition content_of :: "json \<Rightarrow> jsval" where
  "content_of el = (case el of JObj es \<Rightarrow> map_of es ''content'' | _ \<Rightarrow> None)"

definition put_page :: "json list \<Rightarrow> nat \<Rightarrow> json \<Rightarrow> json list" where
  "put_page pgs i p = (if i < length pgs then pgs[i := p] else pgs @ [p])"

definition page_inputs :: "(string \<times> json) list \<Rightarrow> json list \<Rightarrow> nat \<Rightarrow> nat \<Rightarrow> (string \<rightharpoonup> jsval)" where
  "page_inputs fs chunk pageCount pageN =
     [page_key pageN ''header_el'' 11 \<mapsto> Some (JStr (stringify (JArr chunk))),
      page_key pageN ''header_el'' 7 \<mapsto> content_of (the (map_of fs ''period'')),
      page_key pageN ''header_el'' 10 \<mapsto> content_of (the (map_of fs ''table_period'')),
      page_key pageN ''footer_el'' 4 \<mapsto> Some (JStr (page_label pageN pageCount))]"

definition loop_inputs :: "(string \<times> json) list \<Rightarrow> json list \<Rightarrow> nat \<Rightarrow> (string \<rightharpoonup> jsval) \<Rightarrow> nat \<Rightarrow> (string \<rightharpoonup> jsval)" where
  "loop_inputs fs rest pageCount m n =
     foldl (\<lambda>m i. m ++ page_inputs fs (take 7 (drop (7 * (i - 1)) rest)) pageCount (i + 1)) m [1..<n + 1]"

definition is_text :: "json \<Rightarrow> bool" where
  "is_text el = (case el of JObj es \<Rightarrow> map_of es ''type'' = Some (JStr ''text'') | _ \<Rightarrow> False)"

definition text_inputs :: "(string \<times> json) list \<Rightarrow> (string \<rightharpoonup> jsval) \<Rightarrow> (string \<rightharpoonup> jsval)" where
  "text_inputs es m = foldl (\<lambda>m (k, el). if is_text el then m(k \<mapsto> content_of el) else m) m es"

definition with_content :: "json \<Rightarrow> json \<Rightarrow> json" where
  "with_content c el = (case el of JObj es \<Rightarrow> JObj (AList.update ''content'' c es) | _ \<Rightarrow> el)"

definition field_keys :: "string list" where
  "field_keys = map field_key [0..<87]"

definition readable :: "string \<times> json \<Rightarrow> bool" where
  "readable = (\<lambda>(k, el). el \<noteq> JNull \<and> (is_text el \<longrightarrow> k \<noteq> ''__proto__''))"

definition fits_layout :: "(string \<times> json) list \<Rightarrow> bool" where
  "fits_layout fs \<longleftrightarrow>
     list_all (layout_field fs) (header_keys @ footer_keys @ field_keys) \<and> list_all readable fs"

definition headers_of :: "(string \<times> json) list \<Rightarrow> json list" where
  "headers_of fs = map (the \<circ> map_of fs) header_keys"

definition footers_of :: "(string \<times> json) list \<Rightarrow> json list" where
  "footers_of fs = map (the \<circ> map_of fs) footer_keys"

definition page1_after :: "jsnum \<Rightarrow> (string \<times> json) list \<Rightarrow> (string \<times> json) list" where
  "page1_after fromY fs =
     AList.updates footer_keys (map2 reposition (footer_ys fromY) (footers_of fs)) fs"

definition added_page :: "(string \<times> json) list \<Rightarrow> nat \<Rightarrow> json" where
  "added_page fs pageN = new_page fs (headers_of fs) (footers_of fs) pageN"

definition first_page :: "nat \<Rightarrow> (string \<times> json) list \<Rightarrow> (string \<times> json) list" where
  "first_page pageCount fs =
     AList.update ''pages''
       (with_content (JStr (page_label 1 pageCount))
          (the (map_of (page1_after (Fin 214 0) fs) ''pages'')))
       (page1_after (Fin 214 0) fs)"

definition page_count :: "json list \<Rightarrow> nat" where
  "page_count rows = nat \<lceil>real (length (drop PAGE_1_TABLE_ROWS_MAX rows)) / real PAGE_2_TABLE_ROWS_MAX\<rceil>"

definition sample_row :: "nat \<Rightarrow> json" where
  "sample_row i = JArr [JStr (''24 May, 2024'' @ [newline] @ ''202401:13:37 PM''),
                        JStr ''Payment link'',
                        JStr (''1.09 USD'' @ [newline] @ ''1.11 USDT''),
                        JStr (digits i),
                        JStr ''1.59 USD'']"

definition no_page_keys :: "(string \<times> json) list \<Rightarrow> bool" where
  "no_page_keys fs = list_all (\<lambda>(k, el). take 5 k \<noteq> ''page_'') fs"

definition generated_pages :: "(string \<times> json) list \<Rightarrow> json list \<Rightarrow> json list" where
  "generated_pages fs others = JObj (first_page 6 fs) # map (added_page fs) [2..<7] @ drop 5 others"

definition generated_inputs :: "(string \<times> json) list \<Rightarrow> (string \<rightharpoonup> jsval)" where
  "generated_inputs fs =
     text_inputs (first_page 6 fs)
       ((loop_inputs fs (drop 4 (map sample_row [0..<35])) 6
           [''table'' \<mapsto> Some (JStr (stringify (JArr (take 4 (map sample_row [0..<35])))))] 5)
        (''pages'' \<mapsto> Some (JStr (page_label 1 6))))"

definition expected_page :: "(string \<times> json) list \<Rightarrow> nat \<Rightarrow> json" where
  "expected_page fs n = JObj (
       zip (map (page_key n ''header_el'') [1..<12])
           (map2 reposition (header_ys (Fin 1 1)) (headers_of fs))
     @ zip (map (page_key n ''footer_el'') [1..<5])
           (map2 reposition (footer_ys (Fin 215 0)) (footers_of fs))
     @ map (\<lambda>i. (page_key n ''table_hr'' (i - 27),
                  reposition (Fin 9 1) (the (map_of fs (''field'' @ digits i))))) [28..<115])"

definition page_rows :: "json list \<Rightarrow> nat \<Rightarrow> json list" where
  "page_rows rows n = (if n = 1 then take 4 rows else take 7 (drop (4 + 7 * (n - 2)) rows))"

definition table_key :: "nat \<Rightarrow> string" where
  "table_key n = (if n = 1 then ''table'' else page_key n ''header_el'' 11)"

definition long_template :: json where
  "long_template = JObj [(''schemas'', JArr (sample_page # replicate 7 (JObj []))),
                         (''basePdf'', JObj [(''width'', JNum (Fin 21 1)), (''height'', JNum (Fin 297 0)),
                                            (''padding'', JArr [JNum (Fin 0 0), JNum (Fin 0 0), JNum (Fin 0 0), JNum (Fin 0 0)])])]"

definition long_app :: app where
  "long_app = sample_app\<lparr>designer_template := long_template\<rparr>"

definition long_document :: json where
  "long_document = JObj [(''schemas'', JArr (generated_pages sample_fields (replicate 7 (JObj [])))),
                         (''basePdf'', JObj [(''width'', JNum (Fin 21 1)), (''height'', JNum (Fin 297 0)),
                                            (''padding'', JArr [JNum (Fin 0 0), JNum (Fin 0 0), JNum (Fin 0 0), JNum (Fin 0 0)])])]"



section \<open>The generate handler on a store of objects\<close>

text \<open>
  In the program a document is a graph of objects, and the handler changes objects in
  place. To state which objects it changes, the handler is modelled a second time, on a
  store: a list of cells, one for each object or array ever created, where the address of a
  cell is its index. A value is a primitive or the address of a cell. A computation takes
  the store and returns the store together with a value or the exception it raised.

  \<open>snapshot n h v\<close> is the JSON value that \<^verbatim>\<open>JSON.stringify\<close> sees at \<open>v\<close>: it follows at
  most \<open>n\<close> addresses in a row, and with \<open>n\<close> the number of cells it runs out only on a
  cyclic structure, where \<^verbatim>\<open>JSON.stringify\<close> raises a \<open>TypeError\<close>. \<open>alloc_json\<close> creates
  the objects of a JSON value, as \<^verbatim>\<open>JSON.parse\<close> does. The array literals of the handler
  that are never changed (\<^verbatim>\<open>headerElements\<close>, \<^verbatim>\<open>footerElements\<close>, the results of
  \<^verbatim>\<open>map\<close>, and \<^verbatim>\<open>tableData\<close>, which only \<^verbatim>\<open>splice\<close> shortens) are lists of values.
  \<^verbatim>\<open>designer.getTemplate()\<close> is taken to return the document that the designer holds,
  not a copy of it.
\<close>

datatype hval = VUndef | VNull | VBool bool | VNum jsnum | VStr string | VRef nat

datatype cell = CArr "hval list" | CObj "(string \<times> hval) list"

type_synonym 'a hm = "cell list \<Rightarrow> (error + 'a) \<times> cell list"

definition return_h :: "'a \<Rightarrow> 'a hm" where
  "return_h x = (\<lambda>h. (Inr x, h))"

definition throw_h :: "error \<Rightarrow> 'a hm" where
  "throw_h e = (\<lambda>h. (Inl e, h))"

definition then_h :: "'a hm \<Rightarrow> ('a \<Rightarrow> 'b hm) \<Rightarrow> 'b hm" where
  "then_h m f = (\<lambda>h. case m h of (Inl e, h') \<Rightarrow> (Inl e, h') | (Inr x, h') \<Rightarrow> f x h')"

fun each_h :: "('a \<Rightarrow> unit hm) \<Rightarrow> 'a list \<Rightarrow> unit hm" where
  "each_h f [] = return_h ()"
| "each_h f (x # xs) = then_h (f x) (\<lambda>u. each_h f xs)"

fun map_h :: "('a \<Rightarrow> 'b hm) \<Rightarrow> 'a list \<Rightarrow> 'b list hm" where
  "map_h f [] = return_h []"
| "map_h f (x # xs) = then_h (f x) (\<lambda>y. then_h (map_h f xs) (\<lambda>ys. return_h (y # ys)))"

fun fold_h :: "('a \<Rightarrow> 's \<Rightarrow> 's hm) \<Rightarrow> 'a list \<Rightarrow> 's \<Rightarrow> 's hm" where
  "fold_h f [] s = return_h s"
| "fold_h f (x # xs) s = then_h (f x s) (fold_h f xs)"

definition new_cell :: "cell \<Rightarrow> hval hm" where
  "new_cell c = (\<lambda>h. (Inr (VRef (length h)), h @ [c]))"

definition get_prop_h :: "hval \<Rightarrow> string \<Rightarrow> hval hm" where
  "get_prop_h v k = (\<lambda>h. case v of
       VUndef \<Rightarrow> (Inl TypeError, h)
     | VNull \<Rightarrow> (Inl TypeError, h)
     | VRef a \<Rightarrow>
         if a < length h then
           (case h ! a of
              CObj ps \<Rightarrow> (Inr (case map_of ps k of None \<Rightarrow> VUndef | Some x \<Rightarrow> x), h)
            | CArr xs \<Rightarrow> (Inr VUndef, h))
         else (Inl Unmodelled, h)
     | _ \<Rightarrow> (Inr VUndef, h))"

definition get_index_h :: "hval \<Rightarrow> nat \<Rightarrow> hval hm" where
  "get_index_h v i = (\<lambda>h. case v of
       VUndef \<Rightarrow> (Inl TypeError, h)
     | VNull \<Rightarrow> (Inl TypeError, h)
     | VRef a \<Rightarrow>
         if a < length h then
           (case h ! a of
              CArr xs \<Rightarrow> (Inr (if i < length xs then xs ! i else VUndef), h)
            | CObj ps \<Rightarrow> (Inr (case map_of ps (digits i) of None \<Rightarrow> VUndef | Some x \<Rightarrow> x), h))
         else (Inl Unmodelled, h)
     | VStr s \<Rightarrow> (Inr (if i < length s then VStr [s ! i] else VUndef), h)
     | _ \<Rightarrow> (Inr VUndef, h))"

definition set_prop_h :: "hval \<Rightarrow> string \<Rightarrow> hval \<Rightarrow> unit hm" where
  "set_prop_h v k x = (\<lambda>h. case v of
       VRef a \<Rightarrow>
         if a < length h then
           (case h ! a of
              CObj ps \<Rightarrow> (Inr (), h[a := CObj (AList.update k x ps)])
            | CArr xs \<Rightarrow> (Inl Unmodelled, h))
         else (Inl Unmodelled, h)
     | _ \<Rightarrow> (Inl TypeError, h))"

definition set_index_h :: "hval \<Rightarrow> nat \<Rightarrow> hval \<Rightarrow> unit hm" where
  "set_index_h v i x = (\<lambda>h. case v of
       VRef a \<Rightarrow>
         if a < length h then
           (case h ! a of
              CArr xs \<Rightarrow>
                if i < length xs then (Inr (), h[a := CArr (xs[i := x])])
                else if i = length xs then (Inr (), h[a := CArr (xs @ [x])])
                else (Inl Unmodelled, h)
            | CObj ps \<Rightarrow> (Inr (), h[a := CObj (AList.update (digits i) x ps)]))
         else (Inl Unmodelled, h)
     | _ \<Rightarrow> (Inl TypeError, h))"

definition entries_h :: "hval \<Rightarrow> (string \<times> hval) list hm" where
  "entries_h v = (\<lambda>h. case v of
       VUndef \<Rightarrow> (Inl TypeError, h)
     | VNull \<Rightarrow> (Inl TypeError, h)
     | VRef a \<Rightarrow>
         if a < length h then
           (case h ! a of
              CObj ps \<Rightarrow> (Inr ps, h)
            | CArr xs \<Rightarrow> (Inr (zip (map digits [0..<length xs]) xs), h))
         else (Inl Unmodelled, h)
     | VStr s \<Rightarrow> (Inr (zip (map digits [0..<length s]) (map (\<lambda>c. VStr [c]) s)), h)
     | _ \<Rightarrow> (Inr [], h))"

fun snapshot :: "nat \<Rightarrow> cell list \<Rightarrow> hval \<Rightarrow> error + jsval"
  and snapshot_items :: "nat \<Rightarrow> cell list \<Rightarrow> hval list \<Rightarrow> error + json list"
  and snapshot_props :: "nat \<Rightarrow> cell list \<Rightarrow> (string \<times> hval) list \<Rightarrow> error + (string \<times> json) list"
where
  "snapshot n h VUndef = Inr None"
| "snapshot n h VNull = Inr (Some JNull)"
| "snapshot n h (VBool b) = Inr (Some (JBool b))"
| "snapshot n h (VNum x) = Inr (Some (JNum x))"
| "snapshot n h (VStr s) = Inr (Some (JStr s))"
| "snapshot 0 h (VRef a) = Inl TypeError"
| "snapshot (Suc n) h (VRef a) =
     (if a < length h then
        (case h ! a of
           CArr xs \<Rightarrow> and_then (snapshot_items n h xs) (\<lambda>ys. Inr (Some (JArr ys)))
         | CObj ps \<Rightarrow> and_then (snapshot_props n h ps) (\<lambda>qs. Inr (Some (JObj qs))))
      else Inl Unmodelled)"
| "snapshot_items n h [] = Inr []"
| "snapshot_items n h (v # vs) =
     and_then (snapshot n h v) (\<lambda>y.
     and_then (snapshot_items n h vs) (\<lambda>ys.
     Inr ((case y of None \<Rightarrow> JNull | Some j \<Rightarrow> j) # ys)))"
| "snapshot_props n h [] = Inr []"
| "snapshot_props n h (p # ps) =
     and_then (snapshot n h (snd p)) (\<lambda>y.
     and_then (snapshot_props n h ps) (\<lambda>qs.
     Inr (case y of None \<Rightarrow> qs | Some j \<Rightarrow> (fst p, j) # qs)))"

definition stringify_h :: "string \<Rightarrow> hval \<Rightarrow> hval hm" where
  "stringify_h gap v = (\<lambda>h. case snapshot (length h) h v of
       Inl e \<Rightarrow> (Inl e, h)
     | Inr None \<Rightarrow> (Inr VUndef, h)
     | Inr (Some j) \<Rightarrow> (Inr (VStr (serialize gap [] j)), h))"

definition stringify_items_h :: "hval list \<Rightarrow> hval hm" where
  "stringify_items_h vs = (\<lambda>h. case snapshot_items (length h) h vs of
       Inl e \<Rightarrow> (Inl e, h)
     | Inr js \<Rightarrow> (Inr (VStr (stringify (JArr js))), h))"

fun alloc_json :: "json \<Rightarrow> cell list \<Rightarrow> hval \<times> cell list"
  and alloc_items :: "json list \<Rightarrow> cell list \<Rightarrow> hval list \<times> cell list"
  and alloc_props :: "(string \<times> json) list \<Rightarrow> cell list \<Rightarrow> (string \<times> hval) list \<times> cell list"
where
  "alloc_json JNull h = (VNull, h)"
| "alloc_json (JBool b) h = (VBool b, h)"
| "alloc_json (JNum x) h = (VNum x, h)"
| "alloc_json (JStr s) h = (VStr s, h)"
| "alloc_json (JArr xs) h = (case alloc_items xs h of (vs, h') \<Rightarrow> (VRef (length h'), h' @ [CArr vs]))"
| "alloc_json (JObj ps) h = (case alloc_props ps h of (qs, h') \<Rightarrow> (VRef (length h'), h' @ [CObj qs]))"
| "alloc_items [] h = ([], h)"
| "alloc_items (x # xs) h =
     (case alloc_json x h of (v, h1) \<Rightarrow>
      case alloc_items xs h1 of (vs, h2) \<Rightarrow> (v # vs, h2))"
| "alloc_props [] h = ([], h)"
| "alloc_props (p # ps) h =
     (case alloc_json (snd p) h of (v, h1) \<Rightarrow>
      case alloc_props ps h1 of (qs, h2) \<Rightarrow> ((fst p, v) # qs, h2))"

definition JSON_parse_h :: "hval \<Rightarrow> hval hm" where
  "JSON_parse_h text = (\<lambda>h. case text of
       VStr s \<Rightarrow>
         (case JSON_parse s of
            Inl e \<Rightarrow> (Inl e, h)
          | Inr j \<Rightarrow> (case alloc_json j h of (v, h') \<Rightarrow> (Inr v, h')))
     | VUndef \<Rightarrow> (Inl SyntaxError, h)
     | _ \<Rightarrow> (Inl Unmodelled, h))"

definition copyOBJ_h :: "hval \<Rightarrow> hval hm" where
  "copyOBJ_h obj = then_h (stringify_h [] obj) JSON_parse_h"

text \<open>
  The functions of the program, statement by statement. A property assignment changes the
  cell at the address in place, so that nothing is stored back. \<open>page_set\<close> is the
  assignment \<^verbatim>\<open>templateJSON.schemas[pageI][key] = v\<close>, \<open>fill_h\<close> the body of the click
  handler from the parsed snapshot to the call of the generator, and \<open>generate_click_h\<close>
  the handler on the state of the page: the store, the address of the designer's document,
  the console and the arguments of the calls of the generator. A run that leaves the model
  ends with \<open>Inl Unmodelled\<close> and the store it has reached.
\<close>

definition set_position_y_h :: "hval \<Rightarrow> jsnum \<Rightarrow> unit hm" where
  "set_position_y_h el y =
     then_h (get_prop_h el ''position'') (\<lambda>position. set_prop_h position ''y'' (VNum y))"

definition element_h :: "hval list \<Rightarrow> nat \<Rightarrow> hval" where
  "element_h xs i = (if i < length xs then xs ! i else VUndef)"

definition setFooterPositions_h :: "jsnum \<Rightarrow> hval list \<Rightarrow> unit hm" where
  "setFooterPositions_h fromY footerElements =
     then_h (set_position_y_h (element_h footerElements 0) fromY) (\<lambda>u.
     then_h (set_position_y_h (element_h footerElements 1) (num_add fromY (Fin 16 0))) (\<lambda>u.
     then_h (set_position_y_h (element_h footerElements 2) (num_add fromY (Fin 14 0))) (\<lambda>u.
     set_position_y_h (element_h footerElements 3) (num_add fromY (Fin 25 0)))))"

definition setHeaderPositions_h :: "jsnum \<Rightarrow> hval list \<Rightarrow> unit hm" where
  "setHeaderPositions_h fromY headerElements =
     then_h (set_position_y_h (element_h headerElements 0) fromY) (\<lambda>u.
     then_h (set_position_y_h (element_h headerElements 1) (num_add fromY (Fin 1 1))) (\<lambda>u.
     then_h (set_position_y_h (element_h headerElements 2) (num_add fromY (Fin 124 (- 1)))) (\<lambda>u.
     then_h (set_position_y_h (element_h headerElements 3) (num_add fromY (Fin 5 0))) (\<lambda>u.
     then_h (set_position_y_h (element_h headerElements 4) (num_add fromY (Fin 33 0))) (\<lambda>u.
     then_h (set_position_y_h (element_h headerElements 5) (num_add fromY (Fin 35 0))) (\<lambda>u.
     then_h (set_position_y_h (element_h headerElements 6) (num_add fromY (Fin 41 0))) (\<lambda>u.
     then_h (set_position_y_h (element_h headerElements 7) (num_add fromY (Fin 55 0))) (\<lambda>u.
     then_h (set_position_y_h (element_h headerElements 8) (num_add fromY (Fin 59 0))) (\<lambda>u.
     then_h (set_position_y_h (element_h headerElements 9) (num_add fromY (Fin 59 0))) (\<lambda>u.
     set_position_y_h (element_h headerElements 10) (num_add fromY (Fin 67 0))))))))))))"

definition sample_row_h :: "nat \<Rightarrow> hval \<Rightarrow> hval hm" where
  "sample_row_h i el =
     then_h (copyOBJ_h el) (\<lambda>copy.
     then_h (set_index_h copy 3 (VStr (digits i))) (\<lambda>u.
     return_h copy))"

definition sample_rows_h :: "nat \<Rightarrow> hval list hm" where
  "sample_rows_h n =
     then_h (new_cell (CArr [VStr (''24 May, 2024'' @ [newline] @ ''202401:13:37 PM''),
                             VStr ''Payment link'',
                             VStr (''1.09 USD'' @ [newline] @ ''1.11 USDT''),
                             VStr ''-'',
                             VStr ''1.59 USD''])) (\<lambda>row.
     map_h (\<lambda>i. sample_row_h i row) [0..<n])"

definition page_set :: "hval \<Rightarrow> nat \<Rightarrow> string \<Rightarrow> hval \<Rightarrow> unit hm" where
  "page_set templateJSON pageI key v =
     then_h (get_prop_h templateJSON ''schemas'') (\<lambda>schemas.
     then_h (get_index_h schemas pageI) (\<lambda>page.
     set_prop_h page key v))"

definition copy_element_h :: "hval \<Rightarrow> nat \<Rightarrow> string \<Rightarrow> nat \<times> hval \<Rightarrow> hval hm" where
  "copy_element_h templateJSON pageI kind = (\<lambda>(i, el).
     then_h (copyOBJ_h el) (\<lambda>copy.
     then_h (page_set templateJSON pageI (page_key (pageI + 1) kind (i + 1)) copy) (\<lambda>u.
     return_h copy)))"

definition copy_elements_h :: "hval \<Rightarrow> nat \<Rightarrow> string \<Rightarrow> hval list \<Rightarrow> hval list hm" where
  "copy_elements_h templateJSON pageI kind els =
     map_h (copy_element_h templateJSON pageI kind) (zip [0..<length els] els)"

definition copy_rule_h :: "hval \<Rightarrow> hval \<Rightarrow> nat \<Rightarrow> nat \<Rightarrow> unit hm" where
  "copy_rule_h templateJSON schema pageI i =
     then_h (get_prop_h schema (''field'' @ digits (28 + i))) (\<lambda>field.
     then_h (copyOBJ_h field) (\<lambda>hr.
     then_h (set_position_y_h hr (Fin 9 1)) (\<lambda>u.
     page_set templateJSON pageI (page_key (pageI + 1) ''table_hr'' (i + 1)) hr)))"

definition add_page_h ::
  "hval \<Rightarrow> hval \<Rightarrow> hval \<Rightarrow> hval list \<Rightarrow> hval list \<Rightarrow> nat \<Rightarrow> nat \<Rightarrow> hval list \<Rightarrow> hval list hm" where
  "add_page_h templateJSON schema inputs headerElements footerElements pagesLength pageI tableData =
     (let nextTableData = take PAGE_2_TABLE_ROWS_MAX tableData;
          pageN = pageI + 1
      in
      then_h (get_prop_h templateJSON ''schemas'') (\<lambda>schemas.
      then_h (new_cell (CObj [])) (\<lambda>page.
      then_h (set_index_h schemas pageI page) (\<lambda>u.
      then_h (copy_elements_h templateJSON pageI ''header_el'' headerElements) (\<lambda>nextHeaderElements.
      then_h (copy_elements_h templateJSON pageI ''footer_el'' footerElements) (\<lambda>nextFooterElements.
      then_h (each_h (copy_rule_h templateJSON schema pageI) [0..<115 - 28]) (\<lambda>u.
      then_h (stringify_items_h nextTableData) (\<lambda>table.
      then_h (set_prop_h inputs (page_key pageN ''header_el'' (length nextHeaderElements)) table) (\<lambda>u.
      then_h (get_prop_h schema ''period'') (\<lambda>period.
      then_h (get_prop_h period ''content'') (\<lambda>period_content.
      then_h (set_prop_h inputs (page_key pageN ''header_el'' 7) period_content) (\<lambda>u.
      then_h (get_prop_h schema ''table_period'') (\<lambda>table_period.
      then_h (get_prop_h table_period ''content'') (\<lambda>table_period_content.
      then_h (set_prop_h inputs (page_key pageN ''header_el'' 10) table_period_content) (\<lambda>u.
      then_h (set_prop_h inputs (page_key pageN ''footer_el'' (length nextFooterElements))
                (VStr (page_label pageN (pagesLength + 1)))) (\<lambda>u.
      then_h (setHeaderPositions_h (Fin 1 1) nextHeaderElements) (\<lambda>u.
      then_h (setFooterPositions_h (Fin 215 0) nextFooterElements) (\<lambda>u.
      return_h (drop PAGE_2_TABLE_ROWS_MAX tableData)))))))))))))))))))"

definition copy_text_h :: "hval \<Rightarrow> string \<times> hval \<Rightarrow> unit hm" where
  "copy_text_h inputs = (\<lambda>(key, el).
     then_h (get_prop_h el ''type'') (\<lambda>type.
       if type = VStr ''text'' then
         (if key = ''__proto__'' then throw_h Unmodelled
          else then_h (get_prop_h el ''content'') (\<lambda>content. set_prop_h inputs key content))
       else return_h ()))"

definition paginate_h ::
  "hval \<Rightarrow> hval \<Rightarrow> hval \<Rightarrow> hval list \<Rightarrow> hval list \<Rightarrow> hval list \<Rightarrow> unit hm" where
  "paginate_h templateJSON schema inputs headerElements footerElements tableData =
     (if length tableData > PAGE_1_TABLE_ROWS_MAX then
        then_h (stringify_items_h (take PAGE_1_TABLE_ROWS_MAX tableData)) (\<lambda>table.
        then_h (set_prop_h inputs ''table'' table) (\<lambda>u.
        let rest = drop PAGE_1_TABLE_ROWS_MAX tableData in
        then_h (setFooterPositions_h (num_of_int (277 - 21 * (int PAGE_1_TABLE_ROWS_MAX - 1)))
                  footerElements) (\<lambda>u.
        let pagesLength = nat \<lceil>real (length rest) / real PAGE_2_TABLE_ROWS_MAX\<rceil> in
        then_h (fold_h (add_page_h templateJSON schema inputs headerElements footerElements pagesLength)
                  [1..<pagesLength + 1] rest) (\<lambda>rest'.
        let label = VStr (page_label 1 (pagesLength + 1)) in
        then_h (get_prop_h schema ''pages'') (\<lambda>pages.
        then_h (set_prop_h inputs ''pages'' label) (\<lambda>u.
        set_prop_h pages ''content'' label))))))
      else
        then_h (stringify_items_h tableData) (\<lambda>table.
        then_h (set_prop_h inputs ''table'' table) (\<lambda>u.
        then_h (setFooterPositions_h (num_of_int (277 - 21 * (int (length tableData) - 1)))
                  footerElements) (\<lambda>u.
        set_prop_h inputs ''pages'' (VStr ''Page 1 of 1'')))))"

definition fill_h :: "nat \<Rightarrow> hval \<Rightarrow> (hval \<times> hval) hm" where
  "fill_h n templateJSON =
     then_h (get_prop_h templateJSON ''schemas'') (\<lambda>schemas.
     then_h (get_index_h schemas 0) (\<lambda>schema.
     then_h (new_cell (CObj [])) (\<lambda>inputs.
     then_h (sample_rows_h n) (\<lambda>tableData.
     then_h (map_h (get_prop_h schema) header_keys) (\<lambda>headerElements.
     then_h (map_h (get_prop_h schema) footer_keys) (\<lambda>footerElements.
     then_h (paginate_h templateJSON schema inputs headerElements footerElements tableData) (\<lambda>u.
     then_h (entries_h schema) (\<lambda>es.
     then_h (each_h (copy_text_h inputs) es) (\<lambda>u.
     return_h (templateJSON, inputs))))))))))"




text \<open>
  What the claim about the snapshot needs to be stated: \<open>fresh n v\<close> says that the value
  \<open>v\<close> is not the address of one of the first \<open>n\<close> cells, \<open>detached n h\<close> that no cell of
  \<open>h\<close> after the first \<open>n\<close> holds such an address, and \<open>frame n P m\<close> that the
  computation \<open>m\<close>, started on such a store, leaves the first \<open>n\<close> cells as they are and
  keeps the store such, with a result that satisfies \<open>P\<close>. \<open>wf_store h\<close> says that every
  address held in \<open>h\<close> is the address of a cell of \<open>h\<close>.
\<close>

definition fresh :: "nat \<Rightarrow> hval \<Rightarrow> bool" where
  "fresh n v = (case v of VRef a \<Rightarrow> n \<le> a | _ \<Rightarrow> True)"

definition cell_values :: "cell \<Rightarrow> hval list" where
  "cell_values c = (case c of CArr xs \<Rightarrow> xs | CObj ps \<Rightarrow> map snd ps)"

definition detached :: "nat \<Rightarrow> cell list \<Rightarrow> bool" where
  "detached n h = list_all (\<lambda>c. list_all (fresh n) (cell_values c)) (drop n h)"

definition frame :: "nat \<Rightarrow> ('a \<Rightarrow> bool) \<Rightarrow> 'a hm \<Rightarrow> bool" where
  "frame n P m = (\<forall>h. n \<le> length h \<and> detached n h \<longrightarrow>
     (case m h of (r, h') \<Rightarrow>
        take n h' = take n h \<and> length h \<le> length h' \<and> detached n h'
        \<and> (case r of Inl e \<Rightarrow> True | Inr x \<Rightarrow> P x)))"



definition shared_store :: "cell list" where
  "shared_store =
     [CObj [(''y'', VNum (Fin 1 0))],
      CObj [(''position'', VRef 0)],
      CObj [(''footer_el_1'', VRef 1)],
      CArr [VRef 2],
      CObj [(''schemas'', VRef 3)]]"


section \<open>Serialising and parsing again\<close>

lemma run_append: "run (a @ b) s = (case run a s of None \<Rightarrow> None | Some s' \<Rightarrow> run b s')"
  by (induction a arbitrary: s) (auto split: option.splits)

lemma run_Nil_case [simp]: "(case x of None \<Rightarrow> None | Some s' \<Rightarrow> run [] s') = x"
  by (cases x) auto

lemma update_fresh: "k \<notin> fst ` set al \<Longrightarrow> AList.update k v al = al @ [(k, v)]"
  by (induction al) auto

lemma run_elements:
  assumes "\<And>x e st. x \<in> set xs \<Longrightarrow> e = EValue \<or> e = EValueOrEnd \<Longrightarrow> run (tokens x) (e, st) = deliver x st"
    and "xs \<noteq> []" and "e = EValue \<or> e = EValueOrEnd"
  shows "run (join [COMMA] (map tokens xs) @ [RBRACK]) (e, FArr acc # st) = deliver (JArr (acc @ xs)) st"
  using assms
proof (induction xs arbitrary: acc e)
  case Nil
  then show ?case by simp
next
  case (Cons x xs)
  show ?case
  proof (cases xs)
    case Nil
    then show ?thesis using Cons.prems(1)[of x e "FArr acc # st"] Cons.prems(3)
      by (simp add: run_append split: option.splits)
  next
    case tl: (Cons y ys)
    have "run (join [COMMA] (map tokens (y # ys)) @ [RBRACK]) (EValue, FArr (acc @ [x]) # st)
          = deliver (JArr ((acc @ [x]) @ y # ys)) st"
    proof -
      have "run (join [COMMA] (map tokens xs) @ [RBRACK]) (EValue, FArr (acc @ [x]) # st)
            = deliver (JArr ((acc @ [x]) @ xs)) st"
      proof (rule Cons.IH)
        fix x' e' st'
        assume "x' \<in> set xs" "e' = EValue \<or> e' = EValueOrEnd"
        then show "run (tokens x') (e', st') = deliver x' st'"
          using Cons.prems(1)[of x' e' st'] by simp
      next
        show "xs \<noteq> []" using tl by simp
        show "EValue = EValue \<or> EValue = EValueOrEnd" by simp
      qed
      then show ?thesis using tl by simp
    qed
    then show ?thesis using tl Cons.prems(1)[of x e "FArr acc # st"] Cons.prems(3)
      by (simp add: run_append)
  qed
qed

lemma run_members:
  assumes "\<And>k v e st. (k, v) \<in> set ps \<Longrightarrow> e = EValue \<or> e = EValueOrEnd \<Longrightarrow> run (tokens v) (e, st) = deliver v st"
    and "ps \<noteq> []" and "e = EKey \<or> e = EKeyOrEnd" and "distinct (map fst (acc @ ps))"
  shows "run (join [COMMA] (map (\<lambda>(k, v). ATOM (JStr k) # COLON # tokens v) ps) @ [RBRACE]) (e, FObj acc # st)
         = deliver (JObj (acc @ ps)) st"
  using assms
proof (induction ps arbitrary: acc e)
  case Nil
  then show ?case by simp
next
  case (Cons p ps)
  obtain k v where p: "p = (k, v)" by (cases p)
  have fresh: "k \<notin> fst ` set acc" using Cons.prems(4) p by auto
  have val: "run (tokens v) (EValue, FKey acc k # st) = deliver v (FKey acc k # st)"
    using Cons.prems(1)[of k v EValue] p by simp
  show ?case
  proof (cases ps)
    case Nil
    then show ?thesis using val p Cons.prems(3) fresh
      by (auto simp: run_append update_fresh split: option.splits)
  next
    case tl: (Cons q qs)
    have "run (join [COMMA] (map (\<lambda>(k, v). ATOM (JStr k) # COLON # tokens v) (q # qs)) @ [RBRACE])
            (EKey, FObj (acc @ [(k, v)]) # st)
          = deliver (JObj ((acc @ [(k, v)]) @ q # qs)) st"
    proof -
      have "run (join [COMMA] (map (\<lambda>(k, v). ATOM (JStr k) # COLON # tokens v) ps) @ [RBRACE])
              (EKey, FObj (acc @ [(k, v)]) # st)
            = deliver (JObj ((acc @ [(k, v)]) @ ps)) st"
      proof (rule Cons.IH)
        fix k' v' e' st'
        assume "(k', v') \<in> set ps" "e' = EValue \<or> e' = EValueOrEnd"
        then show "run (tokens v') (e', st') = deliver v' st'"
          using Cons.prems(1)[of k' v' e' st'] by simp
      next
        show "ps \<noteq> []" using tl by simp
        show "EKey = EKey \<or> EKey = EKeyOrEnd" by simp
        show "distinct (map fst ((acc @ [(k, v)]) @ ps))" using Cons.prems(4) p by simp
      qed
      then show ?thesis using tl by simp
    qed
    then show ?thesis using tl val p Cons.prems(3) fresh
      by (auto simp: run_append update_fresh)
  qed
qed

lemma run_tokens:
  "wf_json v \<Longrightarrow> e = EValue \<or> e = EValueOrEnd \<Longrightarrow> run (tokens v) (e, st) = deliver v st"
proof (induction v arbitrary: e st)
  case (JArr xs)
  show ?case
  proof (cases "xs = []")
    case True
    then show ?thesis using JArr.prems by (auto split: option.splits)
  next
    case False
    have "run (join [COMMA] (map tokens xs) @ [RBRACK]) (EValueOrEnd, FArr [] # st) = deliver (JArr ([] @ xs)) st"
      using JArr.IH JArr.prems(1) False
      by (intro run_elements) (auto simp: list_all_iff)
    then show ?thesis using JArr.prems(2) by auto
  qed
next
  case (JObj ps)
  show ?case
  proof (cases "ps = []")
    case True
    then show ?thesis using JObj.prems by (auto split: option.splits)
  next
    case False
    have "run (join [COMMA] (map (\<lambda>(k, v). ATOM (JStr k) # COLON # tokens v) ps) @ [RBRACE]) (EKeyOrEnd, FObj [] # st)
          = deliver (JObj ([] @ ps)) st"
    proof (rule run_members)
      fix k v e st
      assume "(k, v) \<in> set ps" "e = EValue \<or> e = EValueOrEnd"
      then show "run (tokens v) (e, st) = deliver v st"
        using JObj.IH[of "(k, v)" v e st] JObj.prems(1) by (auto simp: list_all_iff)
    qed (use False JObj.prems(1) in auto)
    then show ?thesis using JObj.prems(2) by auto
  qed
qed auto

lemma parse_tokens_tokens: "wf_json v \<Longrightarrow> parse_tokens (tokens v) = Inr v"
  by (simp add: parse_tokens_def run_tokens)

lemma hex_val_digit_char: "n < 16 \<Longrightarrow> hex_val (digit_char n) = Some n"
proof -
  assume "n < 16"
  then have "n \<in> {0,1,2,3,4,5,6,7,8,9,10,11,12,13,14,15}"
    by (simp add: insert_iff) arith
  then show ?thesis
    by (auto simp: digit_char_def hex_val_def)
qed

lemma hex4_control:
  assumes "(of_char c :: nat) < 32"
  shows "hex4 CHR ''0'' CHR ''0'' (digit_char (of_char c div 16)) (digit_char (of_char c mod 16)) = Inr c"
proof -
  let ?n = "of_char c :: nat"
  have a: "hex_val (digit_char (?n div 16)) = Some (?n div 16)"
    using assms by (intro hex_val_digit_char) simp
  have b: "hex_val (digit_char (?n mod 16)) = Some (?n mod 16)"
    by (intro hex_val_digit_char) simp
  have z: "hex_val CHR ''0'' = Some 0" by (simp add: hex_val_def)
  have "?n div 16 * 16 + ?n mod 16 = ?n" by simp
  then show ?thesis using assms by (simp add: hex4_def a b z)
qed

lemma lex_string_quote_char:
  "lex_string (quote_char c @ t) = cons_chr c (lex_string t)"
proof -
  consider (named) "c \<in> {CHR 0x08, CHR 0x09, CHR 0x0A, CHR 0x0C, CHR 0x0D, dquote, backslash}"
    | (control) "c \<notin> {CHR 0x08, CHR 0x09, CHR 0x0A, CHR 0x0C, CHR 0x0D, dquote, backslash}" "(of_char c :: nat) < 32"
    | (plain) "c \<notin> {CHR 0x08, CHR 0x09, CHR 0x0A, CHR 0x0C, CHR 0x0D, dquote, backslash}" "\<not> (of_char c :: nat) < 32"
    by blast
  then show ?thesis
  proof cases
    case named
    then show ?thesis
      by (auto simp: quote_char_def lex_escape_def unescape_def dquote_def backslash_def)
  next
    case control
    then show ?thesis
      using hex4_control[of c]
      by (simp add: quote_char_def lex_escape_def dquote_def backslash_def)
  next
    case plain
    then show ?thesis
      by (simp add: quote_char_def)
  qed
qed

lemma lex_string_quoted:
  "lex_string (concat (map quote_char s) @ dquote # rest) = Inr (s, rest)"
  by (induction s) (simp_all add: lex_string_quote_char cons_chr_def)

declare digits.simps [simp del]
declare norm10.simps [simp del]

lemma lt10_cases: "n < 10 \<Longrightarrow> n \<in> {0,1,2,3,4,5,6,7,8,9::nat}"
  by (simp add: insert_iff) arith

lemma is_digit_digit_char: "n < 10 \<Longrightarrow> is_digit (digit_char n)"
  by (drule lt10_cases) (auto simp: digit_char_def is_digit_def)

lemma digit_val_digit_char: "n < 10 \<Longrightarrow> digit_val (digit_char n) = n"
  by (drule lt10_cases) (auto simp: digit_char_def digit_val_def)

lemma digit_char_nonzero: "0 < n \<Longrightarrow> n < 10 \<Longrightarrow> digit_char n \<noteq> CHR ''0''"
  by (drule lt10_cases) (auto simp: digit_char_def)

lemma digits_all_digit: "c \<in> set (digits n) \<Longrightarrow> is_digit c"
proof (induction n rule: digits.induct)
  case (1 n)
  then show ?case
    by (subst (asm) (2) digits.simps) (auto simp: is_digit_digit_char split: if_splits)
qed

lemma digits_nonempty: "digits n \<noteq> []"
  by (subst digits.simps) simp

lemma nat_of_digits_snoc: "nat_of_digits (ds @ [c]) = 10 * nat_of_digits ds + digit_val c"
  by (simp add: nat_of_digits_def)

lemma nat_of_digits_digits: "nat_of_digits (digits n) = n"
proof (induction n rule: digits.induct)
  case (1 n)
  show ?case
  proof (cases "n < 10")
    case True
    then show ?thesis
      by (subst digits.simps) (simp add: nat_of_digits_def digit_val_digit_char)
  next
    case False
    then show ?thesis using 1
      by (subst digits.simps) (simp add: nat_of_digits_snoc digit_val_digit_char)
  qed
qed

lemma hd_digits: "0 < n \<Longrightarrow> hd (digits n) \<noteq> CHR ''0''"
proof (induction n rule: digits.induct)
  case (1 n)
  show ?case
  proof (cases "n < 10")
    case True
    then show ?thesis using "1.prems"
      by (subst digits.simps) (simp add: digit_char_nonzero)
  next
    case False
    then have "0 < n div 10" by simp
    then show ?thesis using 1 False
      by (subst digits.simps) (simp add: digits_nonempty)
  qed
qed

lemma nat_of_digits_append:
  "nat_of_digits (a @ b) = nat_of_digits a * 10 ^ length b + nat_of_digits b"
proof (induction b rule: rev_induct)
  case Nil
  then show ?case by (simp add: nat_of_digits_def)
next
  case (snoc c b)
  have "nat_of_digits (a @ b @ [c]) = 10 * nat_of_digits (a @ b) + digit_val c"
    using nat_of_digits_snoc[of "a @ b" c] by simp
  then show ?case using snoc by (simp add: nat_of_digits_snoc algebra_simps)
qed

lemma nat_of_digits_zeros: "nat_of_digits (replicate j CHR ''0'') = 0"
proof (induction j)
  case 0
  then show ?case by (simp add: nat_of_digits_def)
next
  case (Suc j)
  have "replicate (Suc j) CHR ''0'' = replicate j CHR ''0'' @ [CHR ''0'']"
    by (simp add: replicate_append_same)
  then show ?case using Suc by (simp only: nat_of_digits_snoc) (simp add: digit_val_def)
qed

lemma norm10_canonical: "m mod 10 \<noteq> 0 \<Longrightarrow> norm10 m e = (m, e)"
  by (subst norm10.simps) auto

lemma norm10_shift: "m mod 10 \<noteq> 0 \<Longrightarrow> norm10 (m * 10 ^ j) e = (m, e + int j)"
proof (induction j arbitrary: e)
  case 0
  then show ?case by (simp add: norm10_canonical)
next
  case (Suc j)
  have "m \<noteq> 0" using Suc.prems by auto
  then show ?case using Suc.IH[OF Suc.prems, of "e + 1"]
    by (subst norm10.simps) simp
qed

lemma span_stop:
  assumes "r = [] \<or> \<not> P (hd r)"
  shows "takeWhile P r = []" and "dropWhile P r = r"
  using assms by (cases r; simp)+

lemma span_digits:
  assumes "\<forall>c\<in>set ds. is_digit c" and "r = [] \<or> \<not> is_digit (hd r)"
  shows "takeWhile is_digit (ds @ r) = ds" and "dropWhile is_digit (ds @ r) = r"
  using assms by (simp_all add: span_stop)

lemma lex_frac_none: "r = [] \<or> hd r \<noteq> CHR ''.'' \<Longrightarrow> lex_frac r = Some ([], r)"
  by (cases r) (auto simp: lex_frac_def)

lemma lex_frac_some:
  "fp \<noteq> [] \<Longrightarrow> \<forall>c\<in>set fp. is_digit c \<Longrightarrow> r = [] \<or> \<not> is_digit (hd r) \<Longrightarrow>
   lex_frac (CHR ''.'' # fp @ r) = Some (fp, r)"
  by (simp add: lex_frac_def span_stop)

lemma lex_exp_none: "r = [] \<or> (hd r \<noteq> CHR ''e'' \<and> hd r \<noteq> CHR ''E'') \<Longrightarrow> lex_exp r = Some (0, r)"
  by (cases r) (auto simp: lex_exp_def)

lemma lex_exp_some:
  assumes "r = [] \<or> \<not> is_digit (hd r)"
  shows "lex_exp (CHR ''e'' # (if x < 0 then CHR ''-'' else CHR ''+'') # digits (nat \<bar>x\<bar>) @ r) = Some (x, r)"
proof -
  have "\<forall>c\<in>set (digits (nat \<bar>x\<bar>)). is_digit c" by (simp add: digits_all_digit)
  then show ?thesis using assms
    by (auto simp: lex_exp_def lex_exp_sign_def span_stop digits_nonempty nat_of_digits_digits)
qed

lemma lex_unsigned_shape:
  assumes "ip \<noteq> []" "\<forall>c\<in>set ip. is_digit c" "hd ip \<noteq> CHR ''0'' \<or> tl ip = []"
    and "t = [] \<or> \<not> is_digit (hd t)"
    and "lex_frac t = Some (fp, u)" and "lex_exp u = Some (ex, r)"
  shows "lex_unsigned (ip @ t) = Some (nat_of_digits (ip @ fp), ex - int (length fp), r)"
  using assms by (auto simp: lex_unsigned_def span_stop)

lemma is_digit_simps [simp]:
  "\<not> is_digit CHR ''.''" "\<not> is_digit CHR ''e''" "is_digit CHR ''0''"
  by (simp_all add: is_digit_def)

lemma lex_unsigned_number_body:
  assumes m: "m mod 10 \<noteq> 0" and r: "ok_follow r"
  shows "\<exists>m' e'. lex_unsigned (number_body m e @ r) = Some (m', e', r) \<and> norm10 m' e' = (m, e)"
proof -
  define ds where "ds = digits m"
  define k where "k = int (length ds)"
  define n where "n = e + k"
  have body_eq: "number_body m e =
      (if k \<le> n \<and> n \<le> 21 then ds @ replicate (nat (n - k)) CHR ''0''
       else if 0 < n \<and> n \<le> 21 then take (nat n) ds @ CHR ''.'' # drop (nat n) ds
       else if - 6 < n \<and> n \<le> 0 then ''0.'' @ replicate (nat (- n)) CHR ''0'' @ ds
       else (if k = 1 then ds else hd ds # CHR ''.'' # tl ds)
            @ CHR ''e'' # (if n - 1 < 0 then CHR ''-'' else CHR ''+'')
            # digits (nat \<bar>n - 1\<bar>))"
    unfolding number_body_def ds_def k_def n_def Let_def by (rule refl)
  have m0: "0 < m" using m by (cases m) auto
  have ds_ne: "ds \<noteq> []" by (simp add: ds_def digits_nonempty)
  have ds_dig: "\<forall>c\<in>set ds. is_digit c" by (simp add: ds_def digits_all_digit)
  have ds_hd: "hd ds \<noteq> CHR ''0''" using m0 by (simp add: ds_def hd_digits)
  have ds_val: "nat_of_digits ds = m" by (simp add: ds_def nat_of_digits_digits)
  have k1: "1 \<le> k" using ds_ne by (cases ds) (auto simp: k_def)
  have r_dig: "r = [] \<or> \<not> is_digit (hd r)" using r by (auto simp: ok_follow_def)
  have r_frac: "lex_frac r = Some ([], r)" using r by (intro lex_frac_none) (auto simp: ok_follow_def)
  have r_exp: "lex_exp r = Some (0, r)" using r by (intro lex_exp_none) (auto simp: ok_follow_def)
  consider (int) "k \<le> n" "n \<le> 21"
    | (frac) "n < k" "0 < n" "n \<le> 21"
    | (small) "n < k" "- 6 < n" "n \<le> 0"
    | (exp1) "\<not> (k \<le> n \<and> n \<le> 21)" "\<not> (0 < n \<and> n \<le> 21)" "\<not> (- 6 < n \<and> n \<le> 0)" "k = 1"
    | (expn) "\<not> (k \<le> n \<and> n \<le> 21)" "\<not> (0 < n \<and> n \<le> 21)" "\<not> (- 6 < n \<and> n \<le> 0)" "k \<noteq> 1"
    using k1 by linarith
  then show ?thesis
  proof cases
    case int
    let ?ip = "ds @ replicate (nat (n - k)) CHR ''0''"
    have body: "number_body m e = ?ip"
      using int by (simp add: body_eq)
    have "lex_unsigned (?ip @ r) = Some (nat_of_digits (?ip @ []), 0 - int (length ([]::string)), r)"
      using ds_ne ds_dig ds_hd r_dig r_frac r_exp
      by (intro lex_unsigned_shape) auto
    moreover have "nat_of_digits ?ip = m * 10 ^ nat (n - k)"
      by (simp add: nat_of_digits_append nat_of_digits_zeros ds_val)
    moreover have "norm10 (m * 10 ^ nat (n - k)) 0 = (m, e)"
      using norm10_shift[OF m, of "nat (n - k)" 0] int by (simp add: n_def)
    ultimately show ?thesis by (simp add: body)
  next
    case frac
    let ?ip = "take (nat n) ds" and ?fp = "drop (nat n) ds"
    have body: "number_body m e @ r = ?ip @ (CHR ''.'' # ?fp @ r)"
      using frac by (simp add: body_eq)
    have fp_ne: "?fp \<noteq> []" using frac by (simp add: k_def)
    have ip_ne: "?ip \<noteq> []" using frac ds_ne by simp
    have "lex_unsigned (?ip @ (CHR ''.'' # ?fp @ r)) = Some (nat_of_digits (?ip @ ?fp), 0 - int (length ?fp), r)"
    proof (rule lex_unsigned_shape)
      show "?ip \<noteq> []" by (rule ip_ne)
      show "\<forall>c\<in>set ?ip. is_digit c" using ds_dig by (auto dest: in_set_takeD)
      show "hd ?ip \<noteq> CHR ''0'' \<or> tl ?ip = []" using ds_hd frac by (simp add: hd_take)
      show "CHR ''.'' # ?fp @ r = [] \<or> \<not> is_digit (hd (CHR ''.'' # ?fp @ r))" by simp
      show "lex_frac (CHR ''.'' # ?fp @ r) = Some (?fp, r)"
        using fp_ne ds_dig r_dig by (intro lex_frac_some) (auto dest: in_set_dropD)
      show "lex_exp r = Some (0, r)" by (rule r_exp)
    qed
    moreover have "int (length ?fp) = k - n" using frac by (simp add: k_def)
    ultimately show ?thesis using frac
      by (simp add: body ds_val norm10_canonical[OF m] n_def)
  next
    case small
    let ?fp = "replicate (nat (- n)) CHR ''0'' @ ds"
    have body: "number_body m e @ r = ''0'' @ (CHR ''.'' # ?fp @ r)"
      using small by (simp add: body_eq)
    have "lex_unsigned (''0'' @ (CHR ''.'' # ?fp @ r)) = Some (nat_of_digits (''0'' @ ?fp), 0 - int (length ?fp), r)"
    proof (rule lex_unsigned_shape)
      show "lex_frac (CHR ''.'' # ?fp @ r) = Some (?fp, r)"
        using ds_ne ds_dig r_dig by (intro lex_frac_some) auto
      show "lex_exp r = Some (0, r)" by (rule r_exp)
    qed simp_all
    moreover have "nat_of_digits (''0'' @ ?fp) = m"
      using nat_of_digits_append[of "CHR ''0'' # replicate (nat (- n)) CHR ''0''" ds]
            nat_of_digits_zeros[of "Suc (nat (- n))"]
      by (simp add: ds_val)
    moreover have "int (length ?fp) = k - n" using small by (simp add: k_def)
    ultimately show ?thesis
      by (simp add: body norm10_canonical[OF m] n_def)
  next
    case exp1
    let ?t = "CHR ''e'' # (if n - 1 < 0 then CHR ''-'' else CHR ''+'') # digits (nat \<bar>n - 1\<bar>) @ r"
    have "number_body m e = (if k = 1 then ds else hd ds # CHR ''.'' # tl ds)
            @ CHR ''e'' # (if n - 1 < 0 then CHR ''-'' else CHR ''+'') # digits (nat \<bar>n - 1\<bar>)"
      using exp1(1,2,3) by (simp only: body_eq if_False)
    then have body: "number_body m e @ r = ds @ ?t"
      using exp1(4) by simp
    have "lex_unsigned (ds @ ?t) = Some (nat_of_digits (ds @ []), (n - 1) - int (length ([]::string)), r)"
    proof (rule lex_unsigned_shape)
      show "lex_frac ?t = Some ([], ?t)" by (intro lex_frac_none) simp
      show "lex_exp ?t = Some (n - 1, r)" using r_dig by (rule lex_exp_some)
    qed (use ds_ne ds_dig ds_hd in simp_all)
    then show ?thesis using exp1
      by (simp add: body ds_val norm10_canonical[OF m] n_def)
  next
    case expn
    let ?u = "CHR ''e'' # (if n - 1 < 0 then CHR ''-'' else CHR ''+'') # digits (nat \<bar>n - 1\<bar>) @ r"
    have tl_ne: "tl ds \<noteq> []" using expn k1 by (cases ds; cases "tl ds") (auto simp: k_def)
    have ds_split: "ds = hd ds # tl ds" using ds_ne by simp
    have "number_body m e = (if k = 1 then ds else hd ds # CHR ''.'' # tl ds)
            @ CHR ''e'' # (if n - 1 < 0 then CHR ''-'' else CHR ''+'') # digits (nat \<bar>n - 1\<bar>)"
      using expn(1,2,3) by (simp only: body_eq if_False)
    then have body: "number_body m e @ r = [hd ds] @ (CHR ''.'' # tl ds @ ?u)"
      using expn(4) by simp
    have "lex_unsigned ([hd ds] @ (CHR ''.'' # tl ds @ ?u))
          = Some (nat_of_digits ([hd ds] @ tl ds), (n - 1) - int (length (tl ds)), r)"
    proof (rule lex_unsigned_shape)
      show "\<forall>c\<in>set [hd ds]. is_digit c" using ds_dig ds_ne by simp
      show "lex_frac (CHR ''.'' # tl ds @ ?u) = Some (tl ds, ?u)"
        using tl_ne ds_dig ds_ne by (intro lex_frac_some) (auto dest: list.set_sel(2))
      show "lex_exp ?u = Some (n - 1, r)" using r_dig by (rule lex_exp_some)
    qed simp_all
    moreover have "int (length (tl ds)) = k - 1" using ds_ne by (cases ds) (simp_all add: k_def)
    ultimately show ?thesis using ds_split
      by (simp add: body ds_val norm10_canonical[OF m] n_def)
  qed
qed

lemma cons_tok_eq: "cons_tok t r = toks_then [t] r"
  by (simp add: cons_tok_def toks_then_def split: sum.splits)

lemma toks_then_assoc: "toks_then a (toks_then b r) = toks_then (a @ b) r"
  by (simp add: toks_then_def split: sum.splits)

lemma toks_then_Nil [simp]: "toks_then [] r = r"
  by (simp add: toks_then_def split: sum.splits)

lemma lex_unsigned_starts_digit:
  "lex_unsigned s = Some x \<Longrightarrow> s \<noteq> [] \<and> is_digit (hd s)"
  by (cases s) (auto simp: lex_unsigned_def Let_def split: if_splits)

lemma nat_mod10_pos: "(0::int) < m \<Longrightarrow> m mod 10 \<noteq> 0 \<Longrightarrow> nat m mod 10 \<noteq> 0"
proof -
  assume a: "0 < m" "m mod 10 \<noteq> 0"
  have "nat m mod nat 10 = nat (m mod 10)" using a(1) by (simp add: nat_mod_distrib)
  moreover have "0 \<le> m mod 10" by simp
  ultimately show ?thesis using a(2) by simp
qed

lemma nat_mod10_neg: "(m::int) < 0 \<Longrightarrow> m mod 10 \<noteq> 0 \<Longrightarrow> nat (- m) mod 10 \<noteq> 0"
proof -
  assume a: "m < 0" "m mod 10 \<noteq> 0"
  have "\<not> 10 dvd m" using a(2) by (simp add: dvd_eq_mod_eq_0)
  then have "\<not> 10 dvd (- m)" by simp
  then have "(- m) mod 10 \<noteq> 0" by (simp add: dvd_eq_mod_eq_0)
  then show ?thesis using a(1) nat_mod10_pos[of "- m"] by simp
qed

lemma lex_number_to_string:
  assumes "wf_num (Fin m e)" and "ok_follow r"
  shows "lex_number (number_to_string (Fin m e) @ r) = Inr (Fin m e, r)"
    and "number_to_string (Fin m e) \<noteq> []"
    and "hd (number_to_string (Fin m e)) = CHR ''-'' \<or> is_digit (hd (number_to_string (Fin m e)))"
proof -
  have r_frac: "lex_frac r = Some ([], r)" using assms(2) by (intro lex_frac_none) (auto simp: ok_follow_def)
  have r_exp: "lex_exp r = Some (0, r)" using assms(2) by (intro lex_exp_none) (auto simp: ok_follow_def)
  have r_dig: "r = [] \<or> \<not> is_digit (hd r)" using assms(2) by (auto simp: ok_follow_def)
  consider (zero) "m = 0" "e = 0" | (neg) "m < 0" "m mod 10 \<noteq> 0" | (pos) "0 < m" "m mod 10 \<noteq> 0"
    using assms(1) by (cases "m = 0"; cases "m < 0") (auto simp: wf_num_def)
  then have "lex_number (number_to_string (Fin m e) @ r) = Inr (Fin m e, r)
     \<and> number_to_string (Fin m e) \<noteq> []
     \<and> (hd (number_to_string (Fin m e)) = CHR ''-'' \<or> is_digit (hd (number_to_string (Fin m e))))"
  proof cases
    case zero
    have "lex_unsigned (''0'' @ r) = Some (nat_of_digits (''0'' @ []), 0 - int (length ([]::string)), r)"
      using r_frac r_exp r_dig by (intro lex_unsigned_shape) auto
    then show ?thesis using zero
      by (simp add: lex_number_def lex_sign_def number_to_string_def mk_num_def
            nat_of_digits_def digit_val_def norm10.simps)
  next
    case neg
    let ?M = "nat (- m)"
    have M: "?M mod 10 \<noteq> 0"
      using neg by (rule nat_mod10_neg)
    obtain m' e' where u: "lex_unsigned (number_body ?M e @ r) = Some (m', e', r)" and n: "norm10 m' e' = (?M, e)"
      using lex_unsigned_number_body[OF M assms(2), of e] by blast
    show ?thesis using neg u n
      by (simp add: lex_number_def lex_sign_def number_to_string_def mk_num_def)
  next
    case pos
    let ?M = "nat m"
    have M: "?M mod 10 \<noteq> 0"
      using pos by (rule nat_mod10_pos)
    obtain m' e' where u: "lex_unsigned (number_body ?M e @ r) = Some (m', e', r)" and n: "norm10 m' e' = (?M, e)"
      using lex_unsigned_number_body[OF M assms(2), of e] by blast
    have st: "number_body ?M e @ r \<noteq> []" "is_digit (hd (number_body ?M e @ r))"
      using lex_unsigned_starts_digit[OF u] by auto
    have ne: "number_body ?M e \<noteq> []"
      by (auto simp: number_body_def Let_def digits_nonempty)
    then have hd: "hd (number_body ?M e @ r) = hd (number_body ?M e)" by simp
    have "hd (number_body ?M e @ r) \<noteq> CHR ''-''" using st(2) by (auto simp: is_digit_def)
    then have "lex_sign (number_body ?M e @ r) = (False, number_body ?M e @ r)"
      using st(1) by (cases "number_body ?M e @ r") (auto simp: lex_sign_def)
    then show ?thesis using pos u n ne st(2) hd
      by (simp add: lex_number_def number_to_string_def mk_num_def)
  qed
  then show "lex_number (number_to_string (Fin m e) @ r) = Inr (Fin m e, r)"
    and "number_to_string (Fin m e) \<noteq> []"
    and "hd (number_to_string (Fin m e)) = CHR ''-'' \<or> is_digit (hd (number_to_string (Fin m e)))"
    by blast+
qed

lemma lex_ws_prefix: "ws_only w \<Longrightarrow> tokenize (w @ s) = tokenize s"
  by (induction w) (simp_all add: ws_only_def)

lemma lex_punct:
  "tokenize (CHR ''['' # s) = toks_then [LBRACK] (tokenize s)"
  "tokenize (CHR '']'' # s) = toks_then [RBRACK] (tokenize s)"
  "tokenize (CHR ''{'' # s) = toks_then [LBRACE] (tokenize s)"
  "tokenize (CHR ''}'' # s) = toks_then [RBRACE] (tokenize s)"
  "tokenize (CHR '','' # s) = toks_then [COMMA] (tokenize s)"
  "tokenize (CHR '':'' # s) = toks_then [COLON] (tokenize s)"
  by (simp_all add: is_ws_def cons_tok_eq)

lemma lex_literal:
  "tokenize (CHR ''n'' # CHR ''u'' # CHR ''l'' # CHR ''l'' # s) = toks_then [ATOM JNull] (tokenize s)"
  "tokenize (CHR ''t'' # CHR ''r'' # CHR ''u'' # CHR ''e'' # s) = toks_then [ATOM (JBool True)] (tokenize s)"
  "tokenize (CHR ''f'' # CHR ''a'' # CHR ''l'' # CHR ''s'' # CHR ''e'' # s) = toks_then [ATOM (JBool False)] (tokenize s)"
  by (simp_all add: is_ws_def is_digit_def dquote_def cons_tok_eq)

lemma lex_quoted: "tokenize (quote_json_string k @ s) = toks_then [ATOM (JStr k)] (tokenize s)"
proof -
  have "\<not> is_ws dquote" by (simp add: is_ws_def dquote_def)
  moreover have "dquote \<notin> {CHR ''{'', CHR ''}'', CHR ''['', CHR '']'', CHR '','', CHR '':''}"
    by (simp add: dquote_def)
  ultimately show ?thesis
    by (simp add: quote_json_string_def lex_string_quoted cons_tok_eq)
qed

lemma lex_number:
  assumes "wf_num x" and "ok_follow s"
  shows "tokenize (number_to_string x @ s) = toks_then [ATOM (JNum x)] (tokenize s)"
proof -
  obtain m e where x: "x = Fin m e" using assms(1) by (cases x) (auto simp: wf_num_def)
  let ?t = "number_to_string (Fin m e)"
  from lex_number_to_string[OF assms[unfolded x]]
  have n: "lex_number (?t @ s) = Inr (Fin m e, s)" and ne: "?t \<noteq> []"
    and h: "hd ?t = CHR ''-'' \<or> is_digit (hd ?t)" by blast+
  obtain c cs where t: "?t = c # cs" using ne by (cases ?t) auto
  have c: "c = CHR ''-'' \<or> is_digit c" using h t by simp
  then have "\<not> is_ws c" "c \<notin> {CHR ''{'', CHR ''}'', CHR ''['', CHR '']'', CHR '','', CHR '':'', dquote}"
    by (auto simp: is_ws_def is_digit_def dquote_def)
  then have "tokenize (c # cs @ s) = (case lex_number (c # cs @ s) of Inl e \<Rightarrow> Inl e
                | Inr (y, r) \<Rightarrow> cons_tok (ATOM (JNum y)) (tokenize r))"
    using c by (subst tokenize.simps) auto
  then show ?thesis using n t by (simp add: x cons_tok_eq)
qed

declare tokenize.simps [simp del]

lemma ok_follow_simps [simp]:
  "ok_follow []" "ok_follow (CHR '','' # s)" "ok_follow (CHR '']'' # s)" "ok_follow (CHR ''}'' # s)"
  "ok_follow (newline # s)"
  by (simp_all add: ok_follow_def is_digit_def newline_def)

lemma lex_join:
  assumes items: "\<And>x rest. x \<in> set xs \<Longrightarrow> ok_follow rest \<Longrightarrow> tokenize (f x @ rest) = toks_then (g x) (tokenize rest)"
    and "ws_only w" and "xs \<noteq> []" and "ok_follow rest"
  shows "tokenize (join (CHR '','' # w) (map f xs) @ rest) = toks_then (join [COMMA] (map g xs)) (tokenize rest)"
  using assms
proof (induction xs)
  case Nil
  then show ?case by simp
next
  case (Cons x xs)
  show ?case
  proof (cases xs)
    case Nil
    then show ?thesis using Cons.prems(1)[of x rest] Cons.prems(4) by simp
  next
    case tl: (Cons y ys)
    have "tokenize (join (CHR '','' # w) (map f xs) @ rest) = toks_then (join [COMMA] (map g xs)) (tokenize rest)"
    proof (rule Cons.IH)
      fix x' rest'
      assume "x' \<in> set xs" "ok_follow rest'"
      then show "tokenize (f x' @ rest') = toks_then (g x') (tokenize rest')"
        using Cons.prems(1)[of x' rest'] by simp
    qed (use tl Cons.prems in simp_all)
    moreover have "tokenize (f x @ CHR '','' # w @ join (CHR '','' # w) (map f xs) @ rest)
          = toks_then (g x) (tokenize (CHR '','' # w @ join (CHR '','' # w) (map f xs) @ rest))"
      using Cons.prems(1)[of x "CHR '','' # w @ join (CHR '','' # w) (map f xs) @ rest"] by simp
    ultimately show ?thesis using tl Cons.prems(2)
      by (simp add: lex_punct lex_ws_prefix toks_then_assoc)
  qed
qed

lemma ws_only_simps [simp]:
  "ws_only []" "ws_only (newline # w) = ws_only w" "ws_only '' ''" "ws_only ''  ''"
  "ws_only (a @ b) = (ws_only a \<and> ws_only b)"
  by (auto simp: ws_only_def is_ws_def newline_def)

lemma tokenize_serialize:
  "wf_json v \<Longrightarrow> ws_only gap \<Longrightarrow> ws_only ind \<Longrightarrow> ok_follow rest \<Longrightarrow>
   tokenize (serialize gap ind v @ rest) = toks_then (tokens v) (tokenize rest)"
proof (induction v arbitrary: ind rest)
  case JNull
  then show ?case by (simp add: lex_literal)
next
  case (JBool b)
  then show ?case by (simp add: lex_literal)
next
  case (JNum x)
  then obtain m e where "x = Fin m e" by (cases x) (auto simp: wf_num_def)
  then show ?case using JNum lex_number[of x rest] by simp
next
  case (JStr s)
  then show ?case by (simp add: lex_quoted)
next
  case (JArr xs)
  let ?ind = "ind @ gap"
  let ?f = "serialize gap ?ind"
  have items: "\<And>x r. x \<in> set xs \<Longrightarrow> ok_follow r \<Longrightarrow> tokenize (?f x @ r) = toks_then (tokens x) (tokenize r)"
    using JArr.IH JArr.prems by (auto simp: list_all_iff)
  show ?case
  proof (cases "xs = []")
    case True
    then show ?thesis by (simp add: Let_def lex_punct toks_then_assoc)
  next
    case ne: False
    show ?thesis
    proof (cases "gap = []")
      case True
      have "tokenize (join (CHR '','' # []) (map ?f xs) @ CHR '']'' # rest)
            = toks_then (join [COMMA] (map tokens xs)) (tokenize (CHR '']'' # rest))"
        using items ne by (intro lex_join) simp_all
      then show ?thesis using ne True
        by (simp add: Let_def lex_punct toks_then_assoc)
    next
      case False
      have "tokenize (join (CHR '','' # newline # ?ind) (map ?f xs) @ newline # ind @ CHR '']'' # rest)
            = toks_then (join [COMMA] (map tokens xs)) (tokenize (newline # ind @ CHR '']'' # rest))"
        using items ne JArr.prems by (intro lex_join) simp_all
      moreover have "tokenize (newline # ind @ CHR '']'' # rest) = tokenize (CHR '']'' # rest)"
        using lex_ws_prefix[of "newline # ind" "CHR '']'' # rest"] JArr.prems by simp
      moreover have "tokenize (newline # ?ind @ join (CHR '','' # newline # ?ind) (map ?f xs) @ newline # ind @ CHR '']'' # rest)
          = tokenize (join (CHR '','' # newline # ?ind) (map ?f xs) @ newline # ind @ CHR '']'' # rest)"
        using lex_ws_prefix[of "newline # ?ind"] JArr.prems by simp
      ultimately show ?thesis using ne False
        by (simp add: Let_def lex_punct toks_then_assoc)
    qed
  qed
next
  case (JObj ps)
  let ?ind = "ind @ gap"
  let ?sp = "if gap = [] then [] else '' ''"
  let ?f = "\<lambda>(k, v). quote_json_string k @ '':'' @ ?sp @ serialize gap ?ind v"
  let ?g = "\<lambda>(k, v). ATOM (JStr k) # COLON # tokens v"
  have items: "\<And>p r. p \<in> set ps \<Longrightarrow> ok_follow r \<Longrightarrow> tokenize (?f p @ r) = toks_then (?g p) (tokenize r)"
  proof -
    fix p r
    assume p: "p \<in> set ps" and r: "ok_follow r"
    obtain k v where kv: "p = (k, v)" by (cases p)
    have "wf_json v" using JObj.prems(1) p kv by (auto simp: list_all_iff)
    then have "tokenize (serialize gap ?ind v @ r) = toks_then (tokens v) (tokenize r)"
      using JObj.IH[of p v ?ind r] p kv JObj.prems r by simp
    moreover have "tokenize (?sp @ serialize gap ?ind v @ r) = tokenize (serialize gap ?ind v @ r)"
      by (intro lex_ws_prefix) simp
    ultimately show "tokenize (?f p @ r) = toks_then (?g p) (tokenize r)"
      using kv by (simp add: lex_quoted lex_punct toks_then_assoc)
  qed
  show ?case
  proof (cases "ps = []")
    case True
    then show ?thesis by (simp add: Let_def lex_punct toks_then_assoc)
  next
    case ne: False
    show ?thesis
    proof (cases "gap = []")
      case True
      have "tokenize (join (CHR '','' # []) (map ?f ps) @ CHR ''}'' # rest)
            = toks_then (join [COMMA] (map ?g ps)) (tokenize (CHR ''}'' # rest))"
        using items ne by (intro lex_join) simp_all
      then show ?thesis using ne True
        by (simp add: Let_def lex_punct toks_then_assoc)
    next
      case False
      have "tokenize (join (CHR '','' # newline # ?ind) (map ?f ps) @ newline # ind @ CHR ''}'' # rest)
            = toks_then (join [COMMA] (map ?g ps)) (tokenize (newline # ind @ CHR ''}'' # rest))"
        using items ne JObj.prems by (intro lex_join) simp_all
      moreover have "tokenize (newline # ind @ CHR ''}'' # rest) = tokenize (CHR ''}'' # rest)"
        using lex_ws_prefix[of "newline # ind" "CHR ''}'' # rest"] JObj.prems by simp
      moreover have "tokenize (newline # ?ind @ join (CHR '','' # newline # ?ind) (map ?f ps) @ newline # ind @ CHR ''}'' # rest)
          = tokenize (join (CHR '','' # newline # ?ind) (map ?f ps) @ newline # ind @ CHR ''}'' # rest)"
        using lex_ws_prefix[of "newline # ?ind"] JObj.prems by simp
      ultimately show ?thesis using ne False
        by (simp add: Let_def lex_punct toks_then_assoc)
    qed
  qed
qed

lemma JSON_parse_serialize:
  assumes "wf_json v" and "ws_only gap"
  shows "JSON_parse (serialize gap [] v) = Inr v"
proof -
  have "tokenize (serialize gap [] v @ []) = toks_then (tokens v) (tokenize [])"
    using assms by (intro tokenize_serialize) simp_all
  then have "tokenize (serialize gap [] v) = Inr (tokens v)"
    by (simp add: toks_then_def tokenize.simps)
  then show ?thesis using assms(1) by (simp add: JSON_parse_def parse_tokens_tokens)
qed

lemma JSON_parse_stringify: "wf_json v \<Longrightarrow> JSON_parse (stringify v) = Inr v"
  by (simp add: stringify_def JSON_parse_serialize)

lemma JSON_parse_stringify_pretty: "wf_json v \<Longrightarrow> JSON_parse (stringify_pretty v) = Inr v"
  by (simp add: stringify_pretty_def JSON_parse_serialize)

section \<open>The handlers\<close>

lemma serialize_nonempty: "serialize gap ind v \<noteq> []"
proof (cases v)
  case (JNum x)
  then show ?thesis
    by (cases x)
       (auto simp: number_to_string_def number_body_def Let_def digits_nonempty)
next
  case (JArr xs)
  then show ?thesis by (simp add: Let_def)
next
  case (JObj ps)
  then show ?thesis by (simp add: Let_def)
qed (auto simp: quote_json_string_def)

lemma and_then_Inr [simp]: "and_then (Inr x) f = f x"
  by (simp add: and_then_def)

lemma and_then_Inl [simp]: "and_then (Inl e) f = Inl e"
  by (simp add: and_then_def)

lemma getTemplateJSON_wf:
  "wf_json (designer_template s) \<Longrightarrow> getTemplateJSON s = Inr (designer_template s)"
  by (simp add: getTemplateJSON_def getTemplateJSONString_def getTemplate_def
        JSON_parse_stringify_pretty)

lemma wf_sample_template: "wf_json sample_template"
  by code_simp

lemma serialize_through: "serialize gap ind (through_json v) = serialize gap ind v"
proof (induction v arbitrary: ind)
  case (JNum x)
  then show ?case by (cases x) simp_all
next
  case (JArr xs)
  then have e: "map (serialize gap (ind @ gap)) (map through_json xs) = map (serialize gap (ind @ gap)) xs"
    by (induction xs) simp_all
  show ?case by (simp only: through_json.simps serialize.simps Let_def e)
next
  case (JObj ps)
  have h: "\<And>k v. (k, v) \<in> set ps \<Longrightarrow> serialize gap (ind @ gap) (through_json v) = serialize gap (ind @ gap) v"
    using JObj.IH by (auto simp: snds.simps)
  have e: "map (\<lambda>(k, v). quote_json_string k @ '':'' @ (if gap = [] then [] else '' '')
                                      @ serialize gap (ind @ gap) v) (map (\<lambda>(k, v). (k, through_json v)) ps)
        = map (\<lambda>(k, v). quote_json_string k @ '':'' @ (if gap = [] then [] else '' '')
                                      @ serialize gap (ind @ gap) v) ps"
    unfolding map_map by (rule map_cong[OF refl]) (use h in auto)
  show ?case by (simp only: through_json.simps serialize.simps Let_def e)
qed simp_all

lemma through_finite: "all_finite v \<Longrightarrow> through_json v = v"
proof (induction v)
  case (JNum x)
  then show ?case by (cases x) simp_all
next
  case (JArr xs)
  then have "map through_json xs = xs" by (induction xs) simp_all
  then show ?case by simp
next
  case (JObj ps)
  have "\<And>k v. (k, v) \<in> set ps \<Longrightarrow> all_finite v \<Longrightarrow> through_json v = v"
    using JObj.IH by (auto simp: snds.simps)
  then have "map (\<lambda>(k, v). (k, through_json v)) ps = map (\<lambda>p. p) ps"
    using JObj.prems by (intro map_cong[OF refl]) (auto simp: list_all_iff)
  then show ?case by simp
qed simp_all

lemma wf_all_finite: "wf_json v \<Longrightarrow> all_finite v"
proof (induction v)
  case (JNum x)
  then show ?case by (cases x) (simp_all add: wf_num_def)
next
  case (JArr xs)
  then show ?case by (auto simp: list_all_iff)
next
  case (JObj ps)
  then show ?case by (fastforce simp: list_all_iff snds.simps)
qed simp_all

lemma wf_js_value: "wf_json v \<Longrightarrow> js_value v"
  by (simp add: js_value_def through_finite wf_all_finite)

lemma JSON_parse_stringify_through:
  "js_value v \<Longrightarrow> JSON_parse (stringify v) = Inr (through_json v)"
  using JSON_parse_stringify[of "through_json v"]
  by (simp add: js_value_def stringify_def serialize_through)

lemma JSON_parse_stringify_pretty_through:
  "js_value v \<Longrightarrow> JSON_parse (stringify_pretty v) = Inr (through_json v)"
  using JSON_parse_stringify_pretty[of "through_json v"]
  by (simp add: js_value_def stringify_pretty_def serialize_through)

lemma get_prop_through:
  "get_prop (Some (through_json (JObj ps))) k = Inr (map_option through_json (map_of ps k))"
  by (simp add: get_prop_def map_of_map)

lemma getTemplateJSON_through:
  "js_value (designer_template s) \<Longrightarrow> getTemplateJSON s = Inr (through_json (designer_template s))"
  by (simp add: getTemplateJSON_def getTemplateJSONString_def getTemplate_def
        JSON_parse_stringify_pretty_through)

lemma all_finite_sample_page: "all_finite sample_page"
  using wf_sample_template by (auto simp: sample_template_def intro: wf_all_finite)

lemma through_nan_template:
  "through_json nan_template
   = JObj [(''schemas'', JArr [sample_page]),
           (''basePdf'', JObj [(''width'', JNum (Fin 21 1)), (''height'', JNum (Fin 297 0)),
                              (''padding'', JArr [JNum (Fin 0 0), JNull, JNum (Fin 0 0), JNum (Fin 0 0)])])]"
  by (simp add: nan_template_def through_finite[OF all_finite_sample_page])

lemma js_value_nan_template: "js_value nan_template"
  unfolding js_value_def through_nan_template
  using wf_sample_template by (simp add: sample_template_def wf_num_def)

lemma parseFloat_12: "parseFloat ''12'' = Inr (Fin 12 0)"
  by (simp add: parseFloat_def is_str_ws_def float_digits_def is_digit_def float_exponent_def
        lex_exp_def mk_num_def nat_of_digits_def digit_val_def norm10.simps exact_decimal_def)

lemma parseFloat_abc: "parseFloat ''abc'' = Inr NaN"
  by (simp add: parseFloat_def is_str_ws_def float_digits_def is_digit_def)

lemma padding_change_sample_abc: "padding_change 1 ''abc'' sample_app = Inr nan_app"
proof -
  have g: "getTemplateJSON sample_app = Inr sample_template"
    using getTemplateJSON_wf[of sample_app] wf_sample_template by (simp add: sample_app_def)
  show ?thesis
    unfolding padding_change_def g and_then_Inr parseFloat_abc
    by (simp add: sample_template_def get_prop_def set_index_def set_prop_def
          updateTemplate_def nan_app_def nan_template_def)
qed

subsection \<open>Export and import\<close>

text \<open>
  Claim C5, as stated, fails on a document that holds a number that is not finite, and the
  padding fields write such numbers: entering \<^verbatim>\<open>abc\<close> in the second padding field of
  \<open>sample_app\<close> gives \<open>nan_app\<close>, whose padding holds \<^verbatim>\<open>NaN\<close>. The export writes \<^verbatim>\<open>null\<close>
  in its place, so that parsing the exported text does not return the document, and the
  import does not restore the state.
\<close>

theorem C5_counterexample:
  "padding_change 1 ''abc'' sample_app = Inr nan_app
   \<and> JSON_parse (getTemplateJSONString nan_app) \<noteq> Inr (designer_template nan_app)
   \<and> upload_onload (getTemplateJSONString nan_app) nan_app \<noteq> Inr nan_app"
proof -
  have p: "JSON_parse (getTemplateJSONString nan_app) = Inr (through_json nan_template)"
    by (simp add: getTemplateJSONString_def getTemplate_def nan_app_def
          JSON_parse_stringify_pretty_through js_value_nan_template)
  have ne: "through_json nan_template \<noteq> nan_template"
    unfolding through_nan_template by (simp add: nan_template_def)
  have "getTemplateJSONString nan_app \<noteq> []"
    by (simp add: getTemplateJSONString_def stringify_pretty_def serialize_nonempty)
  then have "upload_onload (getTemplateJSONString nan_app) nan_app
             = Inr (updateTemplate (through_json nan_template) nan_app)"
    using p by (simp add: upload_onload_def)
  moreover have "updateTemplate (through_json nan_template) nan_app \<noteq> nan_app"
    using ne by (simp add: updateTemplate_def nan_app_def sample_app_def)
  ultimately show ?thesis
    using p ne padding_change_sample_abc by (simp add: nan_app_def)
qed

text \<open>
  Claim C5, amended. For every document, the text that the export handler writes parses to
  the document with \<^verbatim>\<open>null\<close> in the place of every number that is not finite, and the
  upload handler, in any state, raises nothing and replaces the document by that value.
  When all numbers of the document are finite, this value is the document: the import
  yields a document equal to the exported one.
\<close>

theorem C5_export_import_roundtrip:
  assumes "js_value (designer_template s)"
  shows "JSON_parse (getTemplateJSONString s) = Inr (through_json (designer_template s))
         \<and> upload_onload (getTemplateJSONString s) s2
             = Inr (s2\<lparr>designer_template := through_json (designer_template s)\<rparr>)
         \<and> (all_finite (designer_template s) \<longrightarrow>
               JSON_parse (getTemplateJSONString s) = Inr (designer_template s)
             \<and> upload_onload (getTemplateJSONString s) s2
                 = Inr (s2\<lparr>designer_template := designer_template s\<rparr>))"
proof -
  have p: "JSON_parse (getTemplateJSONString s) = Inr (through_json (designer_template s))"
    using assms
    by (simp add: getTemplateJSONString_def getTemplate_def JSON_parse_stringify_pretty_through)
  have "getTemplateJSONString s \<noteq> []"
    by (simp add: getTemplateJSONString_def stringify_pretty_def serialize_nonempty)
  then have u: "upload_onload (getTemplateJSONString s) s2
             = Inr (s2\<lparr>designer_template := through_json (designer_template s)\<rparr>)"
    using p by (simp add: upload_onload_def updateTemplate_def)
  show ?thesis using p u by (simp add: through_finite)
qed

theorem C5_export_import_roundtrip_witness:
  "js_value (designer_template sample_app)
   \<and> all_finite (designer_template sample_app)
   \<and> JSON_parse (getTemplateJSONString sample_app) = Inr (designer_template sample_app)
   \<and> upload_onload (getTemplateJSONString sample_app) nan_app = Inr sample_app"
proof -
  have wf: "wf_json (designer_template sample_app)"
    unfolding sample_app_def by (simp add: wf_sample_template)
  have js: "js_value (designer_template sample_app)" using wf by (rule wf_js_value)
  have fin: "all_finite (designer_template sample_app)" using wf by (rule wf_all_finite)
  have e: "nan_app\<lparr>designer_template := designer_template sample_app\<rparr> = sample_app"
    by (simp add: nan_app_def)
  from C5_export_import_roundtrip [OF js, of nan_app] fin
  have "JSON_parse (getTemplateJSONString sample_app) = Inr (designer_template sample_app)"
    "upload_onload (getTemplateJSONString sample_app) nan_app
       = Inr (nan_app\<lparr>designer_template := designer_template sample_app\<rparr>)"
    by blast+
  then show ?thesis using js fin unfolding e by blast
qed

subsection \<open>Upload of a text that is not JSON\<close>

text \<open>
  Claim C6. When the uploaded text is not valid JSON, no exception escapes the upload
  handler and the document is the one before: the handler does not reach
  \<^verbatim>\<open>updateTemplate\<close>. It leaves the store and the generator calls alone as well, and
  logs the parse error to the console (an empty text is not even parsed: nothing is
  logged).
\<close>

theorem C6_invalid_upload_leaves_document:
  assumes "JSON_parse text = Inl SyntaxError"
  shows "\<exists>s'. upload_onload text s = Inr s'
            \<and> designer_template s' = designer_template s
            \<and> localStorage s' = localStorage s
            \<and> generated s' = generated s
            \<and> console s' = (if text = [] then console s
                             else console s @ [''JSON Parsing Error:''])"
  using assms by (simp add: upload_onload_def console_error_def)

theorem C6_invalid_upload_leaves_document_witness:
  "JSON_parse ''{'' = Inl SyntaxError
   \<and> (\<exists>s'. upload_onload ''{'' sample_app = Inr s'
          \<and> designer_template s' = designer_template sample_app
          \<and> localStorage s' = localStorage sample_app
          \<and> generated s' = generated sample_app
          \<and> console s' = console sample_app @ [''JSON Parsing Error:''])"
proof -
  have bad: "JSON_parse ''{'' = Inl SyntaxError"
    by (simp add: JSON_parse_def tokenize.simps is_ws_def cons_tok_def parse_tokens_def)
  show ?thesis
    using bad C6_invalid_upload_leaves_document [OF bad, of sample_app] by simp
qed

subsection \<open>The padding fields\<close>

text \<open>
  Claim C7, as stated, fails on \<open>nan_app\<close>, whose padding is \<^verbatim>\<open>[0, NaN, 0, 0]\<close>: the handler
  reads the document through its serialisation, where \<^verbatim>\<open>NaN\<close> is written as \<^verbatim>\<open>null\<close>, so
  that after the value \<^verbatim>\<open>12\<close> was entered in the first field the second component is
  \<^verbatim>\<open>null\<close> and no longer \<^verbatim>\<open>NaN\<close>.
\<close>

theorem C7_counterexample:
  "padding_of (designer_template nan_app)
     = Inr (Some (JArr [JNum (Fin 0 0), JNum NaN, JNum (Fin 0 0), JNum (Fin 0 0)]))
   \<and> map_sum id (padding_of \<circ> designer_template) (padding_change 0 ''12'' nan_app)
     = Inr (Inr (Some (JArr [JNum (Fin 12 0), JNull, JNum (Fin 0 0), JNum (Fin 0 0)])))"
proof -
  have g: "getTemplateJSON nan_app = Inr (through_json nan_template)"
    using getTemplateJSON_through[of nan_app] js_value_nan_template by (simp add: nan_app_def)
  have a: "padding_of (designer_template nan_app)
     = Inr (Some (JArr [JNum (Fin 0 0), JNum NaN, JNum (Fin 0 0), JNum (Fin 0 0)]))"
    by (simp add: padding_of_def get_prop_def nan_app_def nan_template_def)
  have b: "map_sum id (padding_of \<circ> designer_template) (padding_change 0 ''12'' nan_app)
     = Inr (Inr (Some (JArr [JNum (Fin 12 0), JNull, JNum (Fin 0 0), JNum (Fin 0 0)])))"
    unfolding padding_change_def g and_then_Inr through_nan_template
    by (simp add: get_prop_def set_index_def set_prop_def parseFloat_12 updateTemplate_def
          padding_of_def)
  from a b show ?thesis by (rule conjI)
qed

text \<open>
  Claim C7, amended. When the \<^verbatim>\<open>basePdf.padding\<close> of the document is an array of four
  components, the change handler of the top padding field (index 0) with the value
  \<^verbatim>\<open>12\<close> replaces the designer's document by one whose padding has 12 as its first
  component and, as the other three, the components of before with \<^verbatim>\<open>null\<close> in the place
  of every number that is not finite: they are unchanged when they hold finite numbers
  only. The rest of the state is untouched.
\<close>

theorem C7_padding_top:
  assumes "js_value (designer_template s)"
    and "padding_of (designer_template s) = Inr (Some (JArr [p0, p1, p2, p3]))"
  shows "\<exists>s'. padding_change 0 ''12'' s = Inr s'
            \<and> padding_of (designer_template s')
                = Inr (Some (JArr [JNum (Fin 12 0), through_json p1, through_json p2, through_json p3]))
            \<and> (all_finite (JArr [p1, p2, p3]) \<longrightarrow>
                  padding_of (designer_template s') = Inr (Some (JArr [JNum (Fin 12 0), p1, p2, p3])))
            \<and> localStorage s' = localStorage s \<and> autosave_checked s' = autosave_checked s
            \<and> console s' = console s \<and> generated s' = generated s"
proof -
  obtain tps where t: "designer_template s = JObj tps"
    using assms(2) by (cases "designer_template s") (auto simp: padding_of_def get_prop_def)
  obtain b where b: "map_of tps ''basePdf'' = Some b"
    using assms(2) t by (cases "map_of tps ''basePdf''") (auto simp: padding_of_def get_prop_def)
  obtain bps where bp: "b = JObj bps"
    using assms(2) t b by (cases b) (auto simp: padding_of_def get_prop_def)
  have p: "map_of bps ''padding'' = Some (JArr [p0, p1, p2, p3])"
    using assms(2) t b bp by (auto simp: padding_of_def get_prop_def)
  have g: "getTemplateJSON s = Inr (through_json (JObj tps))"
    using getTemplateJSON_through[OF assms(1)] t by simp
  have g1: "get_prop (Some (through_json (JObj tps))) ''basePdf'' = Inr (Some (through_json (JObj bps)))"
    unfolding get_prop_through using b bp by simp
  have g2: "get_prop (Some (through_json (JObj bps))) ''padding''
            = Inr (Some (JArr [through_json p0, through_json p1, through_json p2, through_json p3]))"
    unfolding get_prop_through using p by simp
  have f: "all_finite (JArr [p1, p2, p3]) \<Longrightarrow>
           through_json p1 = p1 \<and> through_json p2 = p2 \<and> through_json p3 = p3"
    by (simp add: through_finite)
  show ?thesis
    unfolding padding_change_def g and_then_Inr g1 g2 parseFloat_12
    using f
    by (simp add: set_index_def set_prop_def updateTemplate_def padding_of_def get_prop_def
          update_conv')
qed

theorem C7_padding_top_witness:
  "js_value (designer_template sample_app)
   \<and> padding_of (designer_template sample_app)
       = Inr (Some (JArr [JNum (Fin 0 0), JNum (Fin 0 0), JNum (Fin 0 0), JNum (Fin 0 0)]))
   \<and> all_finite (JArr [JNum (Fin 0 0), JNum (Fin 0 0), JNum (Fin 0 0)])
   \<and> (\<exists>s'. padding_change 0 ''12'' sample_app = Inr s'
         \<and> padding_of (designer_template s')
             = Inr (Some (JArr [JNum (Fin 12 0), JNum (Fin 0 0), JNum (Fin 0 0), JNum (Fin 0 0)])))"
proof -
  have js: "js_value (designer_template sample_app)"
    by (simp add: sample_app_def wf_sample_template wf_js_value)
  have p: "padding_of (designer_template sample_app)
       = Inr (Some (JArr [JNum (Fin 0 0), JNum (Fin 0 0), JNum (Fin 0 0), JNum (Fin 0 0)]))"
    by (simp add: sample_app_def sample_template_def padding_of_def get_prop_def)
  have fin: "all_finite (JArr [JNum (Fin 0 0), JNum (Fin 0 0), JNum (Fin 0 0)])" by simp
  from C7_padding_top [OF js p] obtain s' where
    "padding_change 0 ''12'' sample_app = Inr s'"
    "all_finite (JArr [JNum (Fin 0 0), JNum (Fin 0 0), JNum (Fin 0 0)]) \<longrightarrow>
       padding_of (designer_template s')
         = Inr (Some (JArr [JNum (Fin 12 0), JNum (Fin 0 0), JNum (Fin 0 0), JNum (Fin 0 0)]))"
    by blast
  then show ?thesis using js p fin by blast
qed

subsection \<open>Autosave\<close>

text \<open>
  Claim C8, as stated, fails on a store whose \<^verbatim>\<open>autosave\<close> key holds the empty string:
  the key is present, and \<^verbatim>\<open>!!""\<close> leaves the checkbox unchecked.
\<close>

theorem C8_counterexample:
  "\<not> (autosave_initial [''autosave'' \<mapsto> []] \<longleftrightarrow> [''autosave'' \<mapsto> ([]::string)] ''autosave'' \<noteq> None)"
  by (simp add: autosave_initial_def)

text \<open>
  Claim C8, amended. The checkbox starts checked exactly when the \<^verbatim>\<open>autosave\<close> key holds
  a non-empty string. The change handler of the checkbox stores \<^verbatim>\<open>"true"\<close> when it is
  checked and removes the key otherwise, so that after it the key is present exactly when
  the box is checked, and the next start restores the box. While the box is checked a
  change event of the widget writes the serialised document under the \<^verbatim>\<open>template\<close> key
  and changes nothing else of the document; while it is unchecked the event changes
  nothing at all.
\<close>

theorem C8_autosave:
  "(autosave_initial store \<longleftrightarrow> (\<exists>v. store ''autosave'' = Some v \<and> v \<noteq> []))
   \<and> autosave_initial (localStorage (autosave_change s)) = autosave_checked s
   \<and> (localStorage (autosave_change s) ''autosave'' \<noteq> None \<longleftrightarrow> autosave_checked s)
   \<and> (autosave_checked s \<longrightarrow>
        localStorage (onChangeTemplate s) = (localStorage s)(''template'' \<mapsto> getTemplateJSONString s)
        \<and> designer_template (onChangeTemplate s) = designer_template s)
   \<and> (\<not> autosave_checked s \<longrightarrow> onChangeTemplate s = s)"
  by (auto simp: autosave_initial_def autosave_change_def onChangeTemplate_def saveTemplate_def
           split: option.splits)

theorem C8_autosave_witness:
  "autosave_checked (sample_app\<lparr>autosave_checked := True\<rparr>)
   \<and> localStorage (onChangeTemplate (sample_app\<lparr>autosave_checked := True\<rparr>)) ''template''
       = Some (getTemplateJSONString sample_app)
   \<and> \<not> autosave_checked sample_app
   \<and> onChangeTemplate sample_app = sample_app"
  using C8_autosave [of Map.empty "sample_app\<lparr>autosave_checked := True\<rparr>"]
        C8_autosave [of Map.empty sample_app]
  by (simp add: sample_app_def getTemplateJSONString_def getTemplate_def)

section \<open>Pagination\<close>

lemma copyOBJ_wf: "wf_json v \<Longrightarrow> copyOBJ (Some v) = Inr v"
  by (simp add: copyOBJ_def JSON_parse_stringify)

lemma list_all_update:
  "list_all P ps \<Longrightarrow> P (k, v) \<Longrightarrow> list_all P (AList.update k v ps)"
  by (induction ps) auto

lemma wf_json_update:
  "wf_json (JObj ps) \<Longrightarrow> wf_json v \<Longrightarrow> wf_json (JObj (AList.update k v ps))"
  by (simp add: distinct_update list_all_update)

lemma wf_json_lookup:
  "wf_json (JObj ps) \<Longrightarrow> map_of ps k = Some v \<Longrightarrow> wf_json v"
  by (auto simp: list_all_iff dest: map_of_SomeD)

lemma positionedE:
  assumes "positioned el"
  obtains es ps where "el = JObj es" "map_of es ''position'' = Some (JObj ps)"
proof -
  from assms obtain es where e: "el = JObj es"
    by (cases el) (auto simp: positioned_def)
  with assms obtain p where p: "map_of es ''position'' = Some p"
    by (cases "map_of es ''position''") (auto simp: positioned_def)
  with assms e obtain ps where "p = JObj ps"
    by (cases p) (auto simp: positioned_def)
  with e p that show ?thesis by blast
qed

lemma set_position_y_ok:
  "positioned el \<Longrightarrow> set_position_y (Some el) y = Inr (reposition y el)"
  by (erule positionedE) (simp add: set_position_y_def get_prop_def set_prop_def reposition_def)

lemma positioned_reposition: "positioned el \<Longrightarrow> positioned (reposition y el)"
  by (erule positionedE) (simp add: positioned_def reposition_def update_conv')

lemma wf_reposition:
  assumes "wf_json el" "wf_num y"
  shows "wf_json (reposition y el)"
proof (cases "positioned el")
  case True
  then obtain es ps where e: "el = JObj es" "map_of es ''position'' = Some (JObj ps)"
    by (rule positionedE)
  have w3: "wf_json (JObj es)" using assms(1) e(1) by simp
  have w1: "wf_json (JObj ps)" by (rule wf_json_lookup[OF w3 e(2)])
  have w2: "wf_json (JObj (AList.update ''y'' (JNum y) ps))"
    by (rule wf_json_update[OF w1]) (simp add: assms(2))
  have r: "reposition y el
           = JObj (AList.update ''position'' (JObj (AList.update ''y'' (JNum y) ps)) es)"
    using e by (simp add: reposition_def)
  show ?thesis unfolding r by (rule wf_json_update[OF w3 w2])
next
  case False
  then have "reposition y el = el"
    by (auto simp: positioned_def reposition_def split: json.splits option.splits)
  then show ?thesis using assms(1) by simp
qed

lemma length4E:
  assumes "length xs = 4"
  obtains a b c d where "xs = [a, b, c, d]"
  using assms by (auto simp: length_Suc_conv numeral_eq_Suc)

lemma length11E:
  assumes "length xs = 11"
  obtains a b c d e f g h i j k where "xs = [a, b, c, d, e, f, g, h, i, j, k]"
  using assms by (auto simp: length_Suc_conv numeral_eq_Suc)

lemma setFooterPositions_ok:
  assumes "length els = 4" "list_all positioned els"
  shows "setFooterPositions fromY (map Some els) = Inr (map Some (map2 reposition (footer_ys fromY) els))"
proof -
  obtain a b c d where "els = [a, b, c, d]" using assms(1) by (rule length4E)
  then show ?thesis using assms(2)
    by (simp add: setFooterPositions_def element_def set_position_y_ok footer_ys_def)
qed

lemma setHeaderPositions_ok:
  assumes "length els = 11" "list_all positioned els"
  shows "setHeaderPositions fromY (map Some els) = Inr (map Some (map2 reposition (header_ys fromY) els))"
proof -
  obtain a b c d e f g h i j k where "els = [a, b, c, d, e, f, g, h, i, j, k]"
    using assms(1) by (rule length11E)
  then show ?thesis using assms(2)
    by (simp add: setHeaderPositions_def element_def set_position_y_ok header_ys_def)
qed

lemma digits_inj: "digits a = digits b \<Longrightarrow> a = b"
  by (metis nat_of_digits_digits)

lemma digits_prefix_inj:
  assumes "digits a @ c # s = digits b @ c # t" and "\<not> is_digit c"
  shows "a = b \<and> s = t"
proof -
  have "takeWhile is_digit (digits a @ c # s) = digits a"
    using assms(2) by (intro span_digits) (auto simp: digits_all_digit)
  moreover have "takeWhile is_digit (digits b @ c # t) = digits b"
    using assms(2) by (intro span_digits) (auto simp: digits_all_digit)
  ultimately have "digits a = digits b" using assms(1) by simp
  then show ?thesis using assms(1) by (auto dest: digits_inj)
qed

lemma page_key_page: "page_key n k i = page_key n' k' j \<Longrightarrow> n = n'"
  by (auto simp: page_key_def is_digit_def dest!: digits_prefix_inj)

lemma page_key_index: "page_key n k i = page_key n' k j \<Longrightarrow> i = j"
  by (auto simp: page_key_def is_digit_def dest!: digits_prefix_inj digits_inj)

lemma page_key_kind [simp]:
  "page_key n ''header_el'' i \<noteq> page_key n' ''footer_el'' j"
  "page_key n ''header_el'' i \<noteq> page_key n' ''table_hr'' j"
  "page_key n ''footer_el'' i \<noteq> page_key n' ''header_el'' j"
  "page_key n ''footer_el'' i \<noteq> page_key n' ''table_hr'' j"
  "page_key n ''table_hr'' i \<noteq> page_key n' ''header_el'' j"
  "page_key n ''table_hr'' i \<noteq> page_key n' ''footer_el'' j"
  by (auto simp: page_key_def is_digit_def dest!: digits_prefix_inj)

lemma page_key_eq_iff [simp]: "page_key n k i = page_key n' k j \<longleftrightarrow> n = n' \<and> i = j"
  by (auto dest: page_key_page page_key_index)

lemma store_elements_ok:
  "store_elements keys (map Some vs) (Some (JObj ps)) = Inr (Some (JObj (AList.updates keys vs ps)))"
proof (induction keys arbitrary: vs ps)
  case Nil
  then show ?case by (simp add: store_elements_def)
next
  case (Cons k keys)
  show ?case
  proof (cases vs)
    case Nil
    then show ?thesis by (simp add: store_elements_def)
  next
    case (Cons v vs')
    then show ?thesis using Cons.IH[of vs' "AList.update k v ps"]
      by (simp add: store_elements_def store_element_def set_prop_def)
  qed
qed

lemma update_in_place:
  "k \<notin> fst ` set pre \<Longrightarrow> AList.update k v (pre @ (k, old) # post) = pre @ (k, v) # post"
  by (induction pre) auto

lemma updates_in_place:
  assumes "distinct ks" "length vs = length ks" "length olds = length ks"
    and "set ks \<inter> fst ` set pre = {}"
  shows "AList.updates ks vs (pre @ zip ks olds @ post) = pre @ zip ks vs @ post"
  using assms
proof (induction ks arbitrary: vs olds pre)
  case Nil
  then show ?case by simp
next
  case (Cons k ks)
  obtain v vs' where vs: "vs = v # vs'" using Cons.prems(2) by (cases vs) auto
  obtain old olds' where olds: "olds = old # olds'" using Cons.prems(3) by (cases olds) auto
  have k: "k \<notin> fst ` set pre" using Cons.prems(4) by auto
  have "AList.updates ks vs' ((pre @ [(k, v)]) @ zip ks olds' @ post)
        = (pre @ [(k, v)]) @ zip ks vs' @ post"
    using Cons.prems vs olds by (intro Cons.IH) auto
  then show ?case using vs olds update_in_place[OF k, of v old "zip ks olds' @ post"]
    by simp
qed

lemma copy_element_ok:
  assumes "wf_json e" and "page_key pageN kind (i + 1) \<notin> fst ` set ps"
  shows "copy_element pageN kind (i, Some e) (copies, JObj ps)
         = Inr (copies @ [Some e], JObj (ps @ [(page_key pageN kind (i + 1), e)]))"
  using assms by (simp add: copy_element_def copyOBJ_wf set_prop_def update_fresh)

lemma copy_elements_fold:
  assumes "list_all wf_json (map snd ies)" and "distinct (map fst ies)"
    and "\<forall>i\<in>fst ` set ies. page_key pageN kind (i + 1) \<notin> fst ` set ps"
  shows "fold_err (copy_element pageN kind) (map (\<lambda>(i, e). (i, Some e)) ies) (copies, JObj ps)
     = Inr (copies @ map (Some \<circ> snd) ies,
            JObj (ps @ map (\<lambda>(i, e). (page_key pageN kind (i + 1), e)) ies))"
  using assms
proof (induction ies arbitrary: copies ps)
  case Nil
  then show ?case by simp
next
  case (Cons ie ies)
  obtain i e where ie: "ie = (i, e)" by (cases ie)
  have fresh: "page_key pageN kind (i + 1) \<notin> fst ` set ps" using Cons.prems(3) ie by simp
  have wf: "wf_json e" using Cons.prems(1) ie by simp
  have "\<forall>j\<in>fst ` set ies. page_key pageN kind (j + 1) \<notin> fst ` set (ps @ [(page_key pageN kind (i + 1), e)])"
    using Cons.prems(2,3) ie by (auto simp: image_iff)
  then have "fold_err (copy_element pageN kind) (map (\<lambda>(i, e). (i, Some e)) ies)
               (copies @ [Some e], JObj (ps @ [(page_key pageN kind (i + 1), e)]))
     = Inr ((copies @ [Some e]) @ map (Some \<circ> snd) ies,
            JObj ((ps @ [(page_key pageN kind (i + 1), e)]) @ map (\<lambda>(i, e). (page_key pageN kind (i + 1), e)) ies))"
    using Cons.prems(1,2) by (intro Cons.IH) auto
  then show ?case using ie copy_element_ok[OF wf fresh, of copies]
    by simp
qed

lemma zip_upt_map: "zip [0..<length els] (map Some els) = map (\<lambda>(i, e). (i, Some e)) (zip [0..<length els] els)"
  by (simp add: zip_map2)

lemma copy_elements_ok:
  assumes "list_all wf_json els"
    and "\<forall>i. page_key pageN kind (i + 1) \<notin> fst ` set ps"
  shows "copy_elements pageN kind (map Some els) (JObj ps)
         = Inr (map Some els, JObj (ps @ zip (page_keys pageN kind (length els)) els))"
proof -
  let ?ies = "zip [0..<length els] els"
  have 1: "list_all wf_json (map snd ?ies)" using assms(1) by simp
  have 2: "distinct (map fst ?ies)" by simp
  have 3: "\<forall>i\<in>fst ` set ?ies. page_key pageN kind (i + 1) \<notin> fst ` set ps" using assms(2) by blast
  have m: "map (\<lambda>(i, e). (page_key pageN kind (i + 1), e)) ?ies = zip (page_keys pageN kind (length els)) els"
    by (simp add: page_keys_def zip_map1)
  have "map snd ?ies = els" by (simp add: map_snd_zip)
  then have s: "map (Some \<circ> snd) ?ies = map Some els" by (simp flip: map_map)
  show ?thesis
    unfolding copy_elements_def length_map zip_upt_map
    using copy_elements_fold[OF 1 2 3, of "[]"] by (simp only: m s append_Nil)
qed

lemma wf_num_90 [simp]: "wf_num (Fin 9 1)"
  by (simp add: wf_num_def)

lemma copy_rule_ok:
  assumes "wf_json (JObj fs)" and "layout_field fs (field_key i)"
    and "page_key pageN ''table_hr'' (i + 1) \<notin> fst ` set ps"
  shows "copy_rule pageN (Some (JObj fs)) i (JObj ps)
         = Inr (JObj (ps @ [(page_key pageN ''table_hr'' (i + 1),
                             reposition (Fin 9 1) (the (map_of fs (field_key i))))]))"
proof -
  from assms(2) obtain f where f: "map_of fs (field_key i) = Some f" "positioned f"
    by (auto simp: layout_field_def split: option.splits)
  have wf: "wf_json f" using assms(1) f(1) by (rule wf_json_lookup)
  have "get_prop (Some (JObj fs)) (''field'' @ digits (28 + i)) = Inr (Some f)"
    using f(1) by (simp add: get_prop_def field_key_def)
  then show ?thesis using f wf assms(3)
    by (simp add: copy_rule_def copyOBJ_wf set_position_y_ok set_prop_def update_fresh)
qed

lemma copy_rules_fold:
  assumes "wf_json (JObj fs)" and "\<forall>i\<in>set is. layout_field fs (field_key i)"
    and "distinct is"
    and "\<forall>i\<in>set is. page_key pageN ''table_hr'' (i + 1) \<notin> fst ` set ps"
  shows "fold_err (copy_rule pageN (Some (JObj fs))) is (JObj ps)
     = Inr (JObj (ps @ map (\<lambda>i. (page_key pageN ''table_hr'' (i + 1),
                               reposition (Fin 9 1) (the (map_of fs (field_key i))))) is))"
  using assms(2-)
proof (induction "is" arbitrary: ps)
  case Nil
  then show ?case by simp
next
  case (Cons i "is")
  let ?kv = "(page_key pageN ''table_hr'' (i + 1), reposition (Fin 9 1) (the (map_of fs (field_key i))))"
  have step: "copy_rule pageN (Some (JObj fs)) i (JObj ps) = Inr (JObj (ps @ [?kv]))"
    using Cons.prems by (intro copy_rule_ok[OF assms(1)]) auto
  have "\<forall>j\<in>set is. page_key pageN ''table_hr'' (j + 1) \<notin> fst ` set (ps @ [?kv])"
    using Cons.prems(2,3) by auto
  then have "fold_err (copy_rule pageN (Some (JObj fs))) is (JObj (ps @ [?kv]))
     = Inr (JObj ((ps @ [?kv]) @ map (\<lambda>i. (page_key pageN ''table_hr'' (i + 1),
                               reposition (Fin 9 1) (the (map_of fs (field_key i))))) is))"
    using Cons.prems(1,2) by (intro Cons.IH) auto
  then show ?case using step by simp
qed

lemma copy_rules_ok:
  assumes "wf_json (JObj fs)" and "\<forall>i<87. layout_field fs (field_key i)"
    and "\<forall>i. page_key pageN ''table_hr'' (i + 1) \<notin> fst ` set ps"
  shows "copy_rules pageN (Some (JObj fs)) (JObj ps) = Inr (JObj (ps @ rule_copies fs pageN))"
  unfolding copy_rules_def rule_copies_def
  using copy_rules_fold[OF assms(1), of "[0..<87]" pageN ps] assms(2,3) by simp

lemma set_page_keys [simp]: "length (page_keys n k m) = m"
  by (simp add: page_keys_def)

lemma page_keys_distinct [simp]: "distinct (page_keys n k m)"
  by (simp add: page_keys_def distinct_map inj_on_def)

lemma page_keys_mem: "x \<in> set (page_keys n k m) \<Longrightarrow> \<exists>i. x = page_key n k (i + 1)"
  by (auto simp: page_keys_def)

lemma fst_zip_subset: "fst ` set (zip ks vs) \<subseteq> set ks"
  by (auto dest: set_zip_leftD)

lemma zip_page_keys_mem:
  "(x, v) \<in> set (zip (page_keys n k m) vs) \<Longrightarrow> \<exists>i. x = page_key n k (i + 1)"
  by (auto dest!: set_zip_leftD page_keys_mem)

lemma layout_field_get:
  assumes "layout_field fs k"
  shows "get_prop (Some (JObj fs)) k = Inr (map_of fs k)"
    and "get_prop (map_of fs k) ''content'' = Inr (content_of (the (map_of fs k)))"
proof -
  show "get_prop (Some (JObj fs)) k = Inr (map_of fs k)" by (simp add: get_prop_def)
  from assms obtain el where el: "map_of fs k = Some el" "positioned el"
    by (auto simp: layout_field_def split: option.splits)
  then obtain es where "el = JObj es" by (auto elim: positionedE)
  then show "get_prop (map_of fs k) ''content'' = Inr (content_of (the (map_of fs k)))"
    using el by (simp add: get_prop_def content_of_def)
qed

lemma map2_reposition_props:
  assumes "list_all positioned els" "list_all wf_json els" "list_all wf_num ys"
  shows "list_all positioned (map2 reposition ys els)"
    and "list_all wf_json (map2 reposition ys els)"
proof -
  have "\<And>y e. (y, e) \<in> set (zip ys els) \<Longrightarrow> positioned (reposition y e) \<and> wf_json (reposition y e)"
  proof -
    fix y e assume "(y, e) \<in> set (zip ys els)"
    then have "y \<in> set ys" "e \<in> set els" by (auto dest: set_zip_leftD set_zip_rightD)
    then show "positioned (reposition y e) \<and> wf_json (reposition y e)"
      using assms by (simp add: list_all_iff positioned_reposition wf_reposition)
  qed
  then show "list_all positioned (map2 reposition ys els)"
    and "list_all wf_json (map2 reposition ys els)"
    by (auto simp: list_all_iff)
qed

lemma add_page_ok:
  assumes wf: "wf_json (JObj fs)"
    and fields: "\<forall>i<87. layout_field fs (field_key i)"
    and period: "layout_field fs ''period''" "layout_field fs ''table_period''"
    and hs: "length hs = 11" "list_all wf_json hs" "list_all positioned hs"
    and ftrs: "length ftrs = 4" "list_all wf_json ftrs" "list_all positioned ftrs"
    and st: "st_schemas st = Some (JArr pgs)" "pageI \<le> length pgs"
  shows "add_page (Some (JObj fs)) (map Some hs) (map Some ftrs) pagesLength pageI st
         = Inr \<lparr> st_schemas = Some (JArr (put_page pgs pageI (new_page fs hs ftrs (pageI + 1)))),
                st_inputs = st_inputs st ++ page_inputs fs (take 7 (st_tableData st)) (pagesLength + 1) (pageI + 1),
                st_tableData = drop 7 (st_tableData st) \<rparr>"
proof -
  let ?N = "pageI + 1"
  let ?hk = "page_keys ?N ''header_el'' 11" and ?fk = "page_keys ?N ''footer_el'' 4"
  let ?H = "zip ?hk hs" and ?F = "zip ?fk ftrs" and ?R = "rule_copies fs ?N"
  let ?hs' = "map2 reposition (header_ys (Fin 1 1)) hs"
  let ?fs' = "map2 reposition (footer_ys (Fin 215 0)) ftrs"
  have c1: "copy_elements ?N ''header_el'' (map Some hs) (JObj []) = Inr (map Some hs, JObj ?H)"
    using copy_elements_ok[OF hs(2), of ?N "''header_el''" "[]"] hs(1) by simp
  have freshF: "\<forall>i. page_key ?N ''footer_el'' (i + 1) \<notin> fst ` set ?H"
    by (auto dest!: zip_page_keys_mem)
  have c2: "copy_elements ?N ''footer_el'' (map Some ftrs) (JObj ?H) = Inr (map Some ftrs, JObj (?H @ ?F))"
    using copy_elements_ok[OF ftrs(2) freshF] ftrs(1) by simp
  have freshR: "\<forall>i. page_key ?N ''table_hr'' (i + 1) \<notin> fst ` set (?H @ ?F)"
    by (auto simp: image_Un dest!: zip_page_keys_mem)
  have c3: "copy_rules ?N (Some (JObj fs)) (JObj (?H @ ?F)) = Inr (JObj ((?H @ ?F) @ ?R))"
    by (rule copy_rules_ok[OF wf fields freshR])
  have p1: "get_prop (Some (JObj fs)) ''period'' = Inr (map_of fs ''period'')"
    and p2: "get_prop (map_of fs ''period'') ''content'' = Inr (content_of (the (map_of fs ''period'')))"
    using layout_field_get[OF period(1)] by simp_all
  have t1: "get_prop (Some (JObj fs)) ''table_period'' = Inr (map_of fs ''table_period'')"
    and t2: "get_prop (map_of fs ''table_period'') ''content'' = Inr (content_of (the (map_of fs ''table_period'')))"
    using layout_field_get[OF period(2)] by simp_all
  have h1: "setHeaderPositions (Fin 1 1) (map Some hs) = Inr (map Some ?hs')"
    by (rule setHeaderPositions_ok[OF hs(1,3)])
  have lh: "length ?hs' = 11" using hs(1) by (simp add: header_ys_def)
  have hkeys: "map (\<lambda>i. page_key ?N ''header_el'' (i + 1)) [0..<length (map Some ?hs')] = ?hk"
    using lh by (simp add: page_keys_def)
  have s1: "store_elements ?hk (map Some ?hs') (Some (JObj ((?H @ ?F) @ ?R)))
            = Inr (Some (JObj (zip ?hk ?hs' @ ?F @ ?R)))"
  proof -
    have "AList.updates ?hk ?hs' ([] @ zip ?hk hs @ (?F @ ?R)) = [] @ zip ?hk ?hs' @ (?F @ ?R)"
      using lh hs(1) by (intro updates_in_place) simp_all
    then have "AList.updates ?hk ?hs' ((?H @ ?F) @ ?R) = zip ?hk ?hs' @ ?F @ ?R" by simp
    then show ?thesis by (simp only: store_elements_ok)
  qed
  have f1: "setFooterPositions (Fin 215 0) (map Some ftrs) = Inr (map Some ?fs')"
    by (rule setFooterPositions_ok[OF ftrs(1,3)])
  have lf: "length ?fs' = 4" using ftrs(1) by (simp add: footer_ys_def)
  have fkeys: "map (\<lambda>i. page_key ?N ''footer_el'' (i + 1)) [0..<length (map Some ?fs')] = ?fk"
    using lf by (simp add: page_keys_def)
  have disj: "set ?fk \<inter> fst ` set (zip ?hk ?hs') = {}"
    by (auto dest!: zip_page_keys_mem page_keys_mem)
  have s2: "store_elements ?fk (map Some ?fs') (Some (JObj (zip ?hk ?hs' @ ?F @ ?R)))
            = Inr (Some (JObj (zip ?hk ?hs' @ zip ?fk ?fs' @ ?R)))"
  proof -
    have "AList.updates ?fk ?fs' (zip ?hk ?hs' @ zip ?fk ftrs @ ?R) = zip ?hk ?hs' @ zip ?fk ?fs' @ ?R"
      using lf ftrs(1) disj by (intro updates_in_place) simp_all
    then show ?thesis by (simp only: store_elements_ok)
  qed
  have np: "JObj (zip ?hk ?hs' @ zip ?fk ?fs' @ ?R) = new_page fs hs ftrs ?N"
    by (simp add: new_page_def)
  have si: "set_index (Some (JArr pgs)) pageI (new_page fs hs ftrs ?N)
            = Inr (JArr (put_page pgs pageI (new_page fs hs ftrs ?N)))"
    using st(2) by (auto simp: set_index_def put_page_def)
  show ?thesis
    unfolding add_page_def Let_def
    apply (subst c1, simp only: and_then_Inr prod.case)
    apply (subst c2, simp only: and_then_Inr prod.case)
    apply (subst c3, simp only: and_then_Inr)
    apply (subst p1, simp only: and_then_Inr)
    apply (subst p2, simp only: and_then_Inr)
    apply (subst t1, simp only: and_then_Inr)
    apply (subst t2, simp only: and_then_Inr)
    apply (subst h1, simp only: and_then_Inr)
    apply (subst hkeys, subst s1, simp only: and_then_Inr)
    apply (subst f1, simp only: and_then_Inr)
    apply (subst fkeys, subst s2, simp only: and_then_Inr option.case np st(1))
    apply (subst si, simp only: and_then_Inr)
    apply (simp add: page_inputs_def PAGE_2_TABLE_ROWS_MAX_def map_add_def fun_eq_iff hs(1) ftrs(1))
    done
qed

lemma loop_inputs_Suc:
  "loop_inputs fs rest c m (Suc n)
   = loop_inputs fs rest c m n ++ page_inputs fs (take 7 (drop (7 * n) rest)) c (n + 2)"
proof -
  have "[1..<Suc (n + 1)] = [1..<n + 1] @ [n + 1]" by (rule upt_Suc_append) simp
  moreover have "Suc (n + 1) = Suc n + 1" by simp
  ultimately have "[1..<Suc n + 1] = [1..<n + 1] @ [n + 1]" by (simp only:)
  then show ?thesis by (simp add: loop_inputs_def del: upt_Suc)
qed

lemma fold_err_append:
  "fold_err f (xs @ ys) s = and_then (fold_err f xs s) (fold_err f ys)"
  by (induction xs arbitrary: s) (auto simp: and_then_def split: sum.splits)

lemma put_page_next:
  assumes "pgs \<noteq> []"
  shows "put_page (take 1 pgs @ map f [2..<n + 2] @ drop (n + 1) pgs) (n + 1) (f (n + 2))
         = take 1 pgs @ map f [2..<n + 3] @ drop (n + 2) pgs"
proof -
  have l: "length (take 1 pgs @ map f [2..<n + 2]) = n + 1"
    using assms by (cases pgs) auto
  have up: "[2..<n + 3] = [2..<n + 2] @ [n + 2]"
  proof -
    have "[2..<Suc (n + 2)] = [2..<n + 2] @ [n + 2]" by (rule upt_Suc_append) simp
    moreover have "Suc (n + 2) = n + 3" by simp
    ultimately show ?thesis by (simp only:)
  qed
  show ?thesis
  proof (cases "n + 1 < length pgs")
    case True
    then have d: "drop (n + 1) pgs = pgs ! (n + 1) # drop (n + 2) pgs"
      by (simp add: Cons_nth_drop_Suc)
    have "(take 1 pgs @ map f [2..<n + 2] @ drop (n + 1) pgs)[n + 1 := f (n + 2)]
          = (take 1 pgs @ map f [2..<n + 2]) @ (drop (n + 1) pgs)[0 := f (n + 2)]"
      using l by (simp add: list_update_append del: upt_Suc)
    then show ?thesis using True l d
      by (simp add: put_page_def up del: upt_Suc)
  next
    case False
    then show ?thesis using l
      by (simp add: put_page_def up del: upt_Suc)
  qed
qed

lemma add_pages_ok:
  assumes wf: "wf_json (JObj fs)"
    and fields: "\<forall>i<87. layout_field fs (field_key i)"
    and period: "layout_field fs ''period''" "layout_field fs ''table_period''"
    and hs: "length hs = 11" "list_all wf_json hs" "list_all positioned hs"
    and ftrs: "length ftrs = 4" "list_all wf_json ftrs" "list_all positioned ftrs"
    and pgs: "pgs \<noteq> []"
  shows "fold_err (add_page (Some (JObj fs)) (map Some hs) (map Some ftrs) pagesLength) [1..<n + 1]
           \<lparr> st_schemas = Some (JArr pgs), st_inputs = m, st_tableData = rest \<rparr>
         = Inr \<lparr> st_schemas = Some (JArr (take 1 pgs @ map (new_page fs hs ftrs) [2..<n + 2] @ drop (n + 1) pgs)),
                st_inputs = loop_inputs fs rest (pagesLength + 1) m n,
                st_tableData = drop (7 * n) rest \<rparr>"
proof (induction n)
  case 0
  have "take 1 pgs @ drop 1 pgs = pgs" by (rule append_take_drop_id)
  then show ?case by (simp add: loop_inputs_def)
next
  case (Suc n)
  let ?st = "\<lparr> st_schemas = Some (JArr (take 1 pgs @ map (new_page fs hs ftrs) [2..<n + 2] @ drop (n + 1) pgs)),
                st_inputs = loop_inputs fs rest (pagesLength + 1) m n,
                st_tableData = drop (7 * n) rest \<rparr>"
  have up: "[1..<Suc n + 1] = [1..<n + 1] @ [n + 1]"
  proof -
    have "[1..<Suc (n + 1)] = [1..<n + 1] @ [n + 1]" by (rule upt_Suc_append) simp
    moreover have "Suc (n + 1) = Suc n + 1" by simp
    ultimately show ?thesis by (simp only:)
  qed
  have len: "n + 1 \<le> length (take 1 pgs @ map (new_page fs hs ftrs) [2..<n + 2] @ drop (n + 1) pgs)"
    using pgs by (cases pgs) auto
  have step: "add_page (Some (JObj fs)) (map Some hs) (map Some ftrs) pagesLength (n + 1) ?st
        = Inr \<lparr> st_schemas = Some (JArr (put_page (take 1 pgs @ map (new_page fs hs ftrs) [2..<n + 2] @ drop (n + 1) pgs)
                                           (n + 1) (new_page fs hs ftrs (n + 1 + 1)))),
                st_inputs = st_inputs ?st ++ page_inputs fs (take 7 (st_tableData ?st)) (pagesLength + 1) (n + 1 + 1),
                st_tableData = drop 7 (st_tableData ?st) \<rparr>"
    by (rule add_page_ok[OF wf fields period hs ftrs _ len]) simp
  have pp: "put_page (take 1 pgs @ map (new_page fs hs ftrs) [2..<n + 2] @ drop (n + 1) pgs)
              (n + 1) (new_page fs hs ftrs (n + 2))
            = take 1 pgs @ map (new_page fs hs ftrs) [2..<n + 3] @ drop (n + 2) pgs"
    by (rule put_page_next[OF pgs])
  have li: "loop_inputs fs rest (pagesLength + 1) m (Suc n)
            = loop_inputs fs rest (pagesLength + 1) m n
              ++ page_inputs fs (take 7 (drop (7 * n) rest)) (pagesLength + 1) (n + 2)"
    by (rule loop_inputs_Suc)
  have n3: "Suc n + 2 = n + 3" "Suc n + 1 = n + 2" "n + 1 + 1 = n + 2" by simp_all
  have dr: "drop 7 (drop (7 * n) rest) = drop (7 * Suc n) rest" by (simp add: add.commute)
  show ?case
    unfolding up fold_err_append Suc.IH and_then_Inr
    using step
    by (simp only: fold_err.simps and_then_Inr n3 pp li fill_state.simps dr)
qed

lemma page_inputs_dom:
  "page_inputs fs chunk c N k \<noteq> None \<Longrightarrow>
     k \<in> {page_key N ''header_el'' 11, page_key N ''header_el'' 7,
          page_key N ''header_el'' 10, page_key N ''footer_el'' 4}"
  by (auto simp: page_inputs_def split: if_splits)

lemma loop_inputs_other:
  assumes "\<forall>N kind j. k \<noteq> page_key N kind j"
  shows "loop_inputs fs rest c m n k = m k"
proof (induction n)
  case 0
  then show ?case by (simp add: loop_inputs_def)
next
  case (Suc n)
  have "page_inputs fs (take 7 (drop (7 * n) rest)) c (n + 2) k = None"
    using assms page_inputs_dom[of fs _ c "n + 2" k] by blast
  then show ?case using Suc by (simp add: loop_inputs_Suc map_add_def)
qed

lemma loop_inputs_page:
  assumes "1 \<le> i" "i \<le> n"
    and "page_inputs fs (take 7 (drop (7 * (i - 1)) rest)) c (i + 1) k \<noteq> None"
  shows "loop_inputs fs rest c m n k = page_inputs fs (take 7 (drop (7 * (i - 1)) rest)) c (i + 1) k"
  using assms(2)
proof (induction n)
  case 0
  then show ?case using assms(1) by simp
next
  case (Suc n)
  from page_inputs_dom[OF assms(3)] obtain kind j where k: "k = page_key (i + 1) kind j" by auto
  show ?case
  proof (cases "i = Suc n")
    case True
    then show ?thesis using assms(3)
      by (auto simp: loop_inputs_Suc map_add_def split: option.splits)
  next
    case False
    then have le: "i \<le> n" using Suc.prems by simp
    have "page_inputs fs (take 7 (drop (7 * n) rest)) c (n + 2) k = None"
    proof (rule ccontr)
      assume "page_inputs fs (take 7 (drop (7 * n) rest)) c (n + 2) k \<noteq> None"
      from page_inputs_dom[OF this] k le show False by (auto dest!: page_key_page)
    qed
    then show ?thesis using Suc.IH[OF le] by (simp add: loop_inputs_Suc map_add_def)
  qed
qed

lemma copy_text_ok:
  assumes "readable (k, el)"
  shows "copy_text (k, el) m = Inr (if is_text el then m(k \<mapsto> content_of el) else m)"
proof (cases el)
  case (JObj es)
  then show ?thesis using assms
    by (simp add: copy_text_def get_prop_def is_text_def content_of_def readable_def)
qed (use assms in \<open>simp_all add: copy_text_def get_prop_def is_text_def readable_def\<close>)

lemma fold_copy_text_ok:
  "list_all readable es \<Longrightarrow> fold_err copy_text es m = Inr (text_inputs es m)"
proof (induction es arbitrary: m)
  case Nil
  then show ?case by (simp add: text_inputs_def)
next
  case (Cons a es)
  obtain k el where a: "a = (k, el)" by (cases a)
  have "copy_text (k, el) m = Inr (if is_text el then m(k \<mapsto> content_of el) else m)"
    using Cons.prems a by (intro copy_text_ok) simp
  then show ?case using Cons a by (simp add: text_inputs_def)
qed

lemma text_inputs_Cons:
  "text_inputs ((k, el) # es) m = text_inputs es (if is_text el then m(k \<mapsto> content_of el) else m)"
  by (simp add: text_inputs_def)

lemma text_inputs_lookup:
  assumes "distinct (map fst es)"
  shows "text_inputs es m k =
           (case map_of es k of
              Some el \<Rightarrow> if is_text el then Some (content_of el) else m k
            | None \<Rightarrow> m k)"
  using assms
proof (induction es arbitrary: m)
  case Nil
  then show ?case by (simp add: text_inputs_def)
next
  case (Cons a es)
  obtain k' el where a: "a = (k', el)" by (cases a)
  have d: "distinct (map fst es)" and nk: "k' \<notin> fst ` set es" using Cons.prems a by auto
  have none: "k = k' \<Longrightarrow> map_of es k = None" using nk by (simp add: map_of_eq_None_iff)
  show ?case
    unfolding a text_inputs_Cons Cons.IH[OF d]
    using none by (auto split: option.splits)
qed

lemma map_err_get_prop:
  "map_err (get_prop (Some (JObj fs))) ks = Inr (map (map_of fs) ks)"
  by (induction ks) (simp_all add: get_prop_def)

lemma layout_field_Some:
  "layout_field fs k \<Longrightarrow> map_of fs k = Some (the (map_of fs k)) \<and> positioned (the (map_of fs k))"
  by (auto simp: layout_field_def split: option.splits)

lemma layout_fields_lookup:
  assumes "list_all (layout_field fs) ks"
  shows "map (map_of fs) ks = map Some (map (the \<circ> map_of fs) ks)"
    and "list_all positioned (map (the \<circ> map_of fs) ks)"
  using assms by (induction ks) (auto dest: layout_field_Some)

lemma wf_lookups:
  assumes "wf_json (JObj fs)" "list_all (layout_field fs) ks"
  shows "list_all wf_json (map (the \<circ> map_of fs) ks)"
  using assms(2)
proof (induction ks)
  case Nil
  then show ?case by simp
next
  case (Cons k ks)
  then have "map_of fs k = Some (the (map_of fs k))" by (auto dest: layout_field_Some)
  then have "wf_json (the (map_of fs k))" by (rule wf_json_lookup[OF assms(1)])
  then show ?case using Cons by simp
qed

lemma list_all_updates:
  assumes "list_all Q al" and "\<forall>kv\<in>set (zip ks vs). Q kv"
  shows "list_all Q (AList.updates ks vs al)"
  using assms
proof (induction ks arbitrary: vs al)
  case Nil
  then show ?case by simp
next
  case (Cons k ks)
  show ?case
  proof (cases vs)
    case Nil
    then show ?thesis using Cons.prems by simp
  next
    case (Cons v vs')
    have "list_all Q (AList.update k v al)"
      using Cons.prems Cons by (intro list_all_update) auto
    then show ?thesis using Cons Cons.prems(2) Cons.IH[of "AList.update k v al" vs']
      by simp
  qed
qed

lemma wf_json_updates:
  assumes "wf_json (JObj al)" "list_all wf_json vs"
  shows "wf_json (JObj (AList.updates ks vs al))"
proof -
  have "distinct (map fst (AList.updates ks vs al))"
    using assms(1) by (intro distinct_updates) simp
  moreover have "list_all (\<lambda>(k, v). wf_json v) (AList.updates ks vs al)"
    using assms by (intro list_all_updates) (auto simp: list_all_iff dest: set_zip_rightD)
  ultimately show ?thesis by simp
qed

lemma is_text_reposition [simp]: "is_text (reposition y el) = is_text el"
  by (auto simp: is_text_def reposition_def update_conv' split: json.splits option.splits)

lemma content_of_reposition [simp]: "content_of (reposition y el) = content_of el"
  by (auto simp: content_of_def reposition_def update_conv' split: json.splits option.splits)

lemma reposition_not_null: "positioned el \<Longrightarrow> reposition y el \<noteq> JNull"
  by (erule positionedE) (simp add: reposition_def)

lemma reposition_twice: "reposition y (reposition y' el) = reposition y el"
proof (cases "positioned el")
  case True
  then obtain es ps where e: "el = JObj es" "map_of es ''position'' = Some (JObj ps)"
    by (rule positionedE)
  show ?thesis using e by (simp add: reposition_def update_conv')
next
  case False
  then have "reposition y' el = el"
    by (auto simp: positioned_def reposition_def split: json.splits option.splits)
  then show ?thesis by simp
qed

lemma norm10_canonical_result:
  "norm10 m e = (m', e') \<Longrightarrow> (m' = 0 \<and> e' = 0) \<or> m' mod 10 \<noteq> 0"
proof (induction m e rule: norm10.induct)
  case (1 m e)
  then show ?case
    by (subst (asm) (2) norm10.simps) (auto split: if_splits)
qed

lemma wf_num_mk_num: "wf_num (mk_num neg m e)"
proof -
  obtain m' e' where n: "norm10 m e = (m', e')" by (cases "norm10 m e")
  from norm10_canonical_result[OF n] show ?thesis
  proof
    assume "m' = 0 \<and> e' = 0"
    then show ?thesis using n by (simp add: mk_num_def wf_num_def)
  next
    assume m: "m' mod 10 \<noteq> 0"
    then have "int m' mod 10 \<noteq> 0"
      by (metis of_nat_mod of_nat_numeral of_nat_eq_0_iff)
    moreover from this have "(- int m') mod 10 \<noteq> 0"
      by (metis dvd_eq_mod_eq_0 dvd_minus_iff)
    moreover have "int m' \<noteq> 0" using m by auto
    ultimately show ?thesis using n by (simp add: mk_num_def wf_num_def)
  qed
qed


lemma wf_num_num_add: "wf_num (num_add (Fin a b) (Fin c d))"
  by (simp add: num_add_def Let_def wf_num_mk_num)

lemma wf_footer_ys: "wf_num (Fin a b) \<Longrightarrow> list_all wf_num (footer_ys (Fin a b))"
  by (simp add: footer_ys_def wf_num_num_add)

lemma wf_header_ys: "wf_num (Fin a b) \<Longrightarrow> list_all wf_num (header_ys (Fin a b))"
  by (simp add: header_ys_def wf_num_num_add)

lemma map_of_updates_nth:
  assumes "distinct ks" "i < length ks" "i < length vs"
  shows "map_of (AList.updates ks vs al) (ks ! i) = Some (vs ! i)"
  using assms
proof (induction ks arbitrary: vs al i)
  case Nil
  then show ?case by simp
next
  case (Cons k ks)
  obtain v vs' where vs: "vs = v # vs'" using Cons.prems(3) by (cases vs) auto
  show ?case
  proof (cases i)
    case 0
    have "k \<notin> set ks" using Cons.prems(1) by simp
    then show ?thesis using 0 vs by (simp add: update_conv')
  next
    case (Suc j)
    then show ?thesis using vs Cons.prems Cons.IH[of j vs' "AList.update k v al"] by simp
  qed
qed

lemma updates_keys_same:
  assumes "set ks \<subseteq> fst ` set al"
  shows "map fst (AList.updates ks vs al) = map fst al"
  using assms
proof (induction ks arbitrary: vs al)
  case Nil
  then show ?case by simp
next
  case (Cons k ks)
  show ?case
  proof (cases vs)
    case Nil
    then show ?thesis by simp
  next
    case (Cons v vs')
    have k: "map fst (AList.update k v al) = map fst al"
      using Cons.prems by (simp add: update_keys)
    then have "set ks \<subseteq> fst ` set (AList.update k v al)"
      using Cons.prems by (metis list.set_map set_subset_Cons subset_trans)
    then show ?thesis using Cons Cons.IH[of "AList.update k v al" vs'] k by simp
  qed
qed

lemma footer_keys_props [simp]:
  "distinct footer_keys" "length footer_keys = 4" "distinct header_keys" "length header_keys = 11"
  by (simp_all add: footer_keys_def header_keys_def)

lemma fits_layoutD:
  assumes "fits_layout fs"
  shows "list_all (layout_field fs) header_keys" "list_all (layout_field fs) footer_keys"
    "list_all (layout_field fs) field_keys" "list_all readable fs"
  using assms by (simp_all add: fits_layout_def)

lemma field_keys_layout:
  "list_all (layout_field fs) field_keys \<Longrightarrow> \<forall>i<87. layout_field fs (field_key i)"
  by (simp add: field_keys_def list_all_iff)

lemma layout_key_in_dom: "layout_field fs k \<Longrightarrow> k \<in> fst ` set fs"
  by (auto simp: layout_field_def split: option.splits dest!: map_of_SomeD intro: rev_image_eqI)

lemma page1_after_props:
  assumes wf: "wf_json (JObj fs)" and fit: "fits_layout fs" and y: "wf_num (Fin a b)"
  shows "wf_json (JObj (page1_after (Fin a b) fs))"
    and "\<And>k. k \<notin> set footer_keys \<Longrightarrow> map_of (page1_after (Fin a b) fs) k = map_of fs k"
    and "\<And>i. i < 4 \<Longrightarrow> map_of (page1_after (Fin a b) fs) (footer_keys ! i)
                 = Some (reposition (footer_ys (Fin a b) ! i) (footers_of fs ! i))"
    and "map fst (page1_after (Fin a b) fs) = map fst fs"
    and "list_all readable (page1_after (Fin a b) fs)"
proof -
  let ?fts = "footers_of fs"
  let ?vs = "map2 reposition (footer_ys (Fin a b)) ?fts"
  have lf: "length ?fts = 4" by (simp add: footers_of_def)
  have ly: "length (footer_ys (Fin a b)) = 4" by (simp add: footer_ys_def)
  have lv: "length ?vs = 4" using lf ly by simp
  have pos: "list_all positioned ?fts"
    unfolding footers_of_def by (rule layout_fields_lookup(2)[OF fits_layoutD(2)[OF fit]])
  have wff: "list_all wf_json ?fts"
    unfolding footers_of_def by (rule wf_lookups[OF wf fits_layoutD(2)[OF fit]])
  have wfv: "list_all wf_json ?vs" and posv: "list_all positioned ?vs"
    using map2_reposition_props[OF pos wff wf_footer_ys[OF y]] by simp_all
  show "wf_json (JObj (page1_after (Fin a b) fs))"
    unfolding page1_after_def by (rule wf_json_updates[OF wf wfv])
  show "\<And>k. k \<notin> set footer_keys \<Longrightarrow> map_of (page1_after (Fin a b) fs) k = map_of fs k"
    by (simp add: page1_after_def)
  show nth: "\<And>i. i < 4 \<Longrightarrow> map_of (page1_after (Fin a b) fs) (footer_keys ! i)
                 = Some (reposition (footer_ys (Fin a b) ! i) (footers_of fs ! i))"
  proof -
    fix i :: nat assume i: "i < 4"
    have "map_of (AList.updates footer_keys ?vs fs) (footer_keys ! i) = Some (?vs ! i)"
      using i lv by (intro map_of_updates_nth) simp_all
    moreover have "?vs ! i = reposition (footer_ys (Fin a b) ! i) (?fts ! i)"
      using i lf ly by simp
    ultimately show "map_of (page1_after (Fin a b) fs) (footer_keys ! i)
                 = Some (reposition (footer_ys (Fin a b) ! i) (footers_of fs ! i))"
      by (simp add: page1_after_def)
  qed
  have sub: "set footer_keys \<subseteq> fst ` set fs"
    using fits_layoutD(2)[OF fit] by (auto simp: list_all_iff dest: layout_key_in_dom)
  show "map fst (page1_after (Fin a b) fs) = map fst fs"
    unfolding page1_after_def by (rule updates_keys_same[OF sub])
  have "\<forall>kv\<in>set (zip footer_keys ?vs). readable kv"
  proof
    fix kv assume kv: "kv \<in> set (zip footer_keys ?vs)"
    obtain k v where p: "kv = (k, v)" by (cases kv)
    have "k \<in> set footer_keys" "v \<in> set ?vs" using kv p by (auto dest: set_zip_leftD set_zip_rightD)
    then have "k \<noteq> ''__proto__''" "positioned v"
      using posv by (auto simp: footer_keys_def list_all_iff)
    then show "readable kv" using p by (auto simp: readable_def elim: positionedE)
  qed
  then show "list_all readable (page1_after (Fin a b) fs)"
    unfolding page1_after_def by (intro list_all_updates fits_layoutD(4)[OF fit])
qed

lemma num_of_int_214: "num_of_int (277 - 21 * (int PAGE_1_TABLE_ROWS_MAX - 1)) = Fin 214 0"
  by (simp add: PAGE_1_TABLE_ROWS_MAX_def num_of_int_def mk_num_def norm10_canonical)

lemma wf_num_214 [simp]: "wf_num (Fin 214 0)"
  by (simp add: wf_num_def)

lemma headers_props:
  assumes "wf_json (JObj fs)" "fits_layout fs"
  shows "map_err (get_prop (Some (JObj fs))) header_keys = Inr (map Some (headers_of fs))"
    and "length (headers_of fs) = 11"
    and "list_all wf_json (headers_of fs)"
    and "list_all positioned (headers_of fs)"
proof -
  note l = fits_layoutD(1)[OF assms(2)]
  show "map_err (get_prop (Some (JObj fs))) header_keys = Inr (map Some (headers_of fs))"
    unfolding headers_of_def map_err_get_prop layout_fields_lookup(1)[OF l] ..
  show "length (headers_of fs) = 11" by (simp add: headers_of_def)
  show "list_all wf_json (headers_of fs)"
    unfolding headers_of_def by (rule wf_lookups[OF assms(1) l])
  show "list_all positioned (headers_of fs)"
    unfolding headers_of_def by (rule layout_fields_lookup(2)[OF l])
qed

lemma footers_props:
  assumes "wf_json (JObj fs)" "fits_layout fs"
  shows "map_err (get_prop (Some (JObj fs))) footer_keys = Inr (map Some (footers_of fs))"
    and "length (footers_of fs) = 4"
    and "list_all wf_json (footers_of fs)"
    and "list_all positioned (footers_of fs)"
proof -
  note l = fits_layoutD(2)[OF assms(2)]
  show "map_err (get_prop (Some (JObj fs))) footer_keys = Inr (map Some (footers_of fs))"
    unfolding footers_of_def map_err_get_prop layout_fields_lookup(1)[OF l] ..
  show "length (footers_of fs) = 4" by (simp add: footers_of_def)
  show "list_all wf_json (footers_of fs)"
    unfolding footers_of_def by (rule wf_lookups[OF assms(1) l])
  show "list_all positioned (footers_of fs)"
    unfolding footers_of_def by (rule layout_fields_lookup(2)[OF l])
qed

lemma field_key_not_footer [simp]: "field_key i \<notin> set footer_keys"
  by (simp add: field_key_def footer_keys_def)

lemma header_key_not_footer: "k \<in> set header_keys \<Longrightarrow> k \<notin> set footer_keys"
  by (auto simp: header_keys_def footer_keys_def)

lemma footers_of_page1_after:
  assumes "wf_json (JObj fs)" "fits_layout fs" "wf_num (Fin a b)"
  shows "footers_of (page1_after (Fin a b) fs) = map2 reposition (footer_ys (Fin a b)) (footers_of fs)"
proof (rule nth_equalityI)
  show "length (footers_of (page1_after (Fin a b) fs))
        = length (map2 reposition (footer_ys (Fin a b)) (footers_of fs))"
    by (simp add: footers_of_def footer_ys_def)
next
  fix i assume "i < length (footers_of (page1_after (Fin a b) fs))"
  then have i: "i < 4" by (simp add: footers_of_def)
  have "footers_of (page1_after (Fin a b) fs) ! i
        = the (map_of (page1_after (Fin a b) fs) (footer_keys ! i))"
    using i by (simp add: footers_of_def)
  also have "\<dots> = reposition (footer_ys (Fin a b) ! i) (footers_of fs ! i)"
    using page1_after_props(3)[OF assms i] by simp
  also have "\<dots> = map2 reposition (footer_ys (Fin a b)) (footers_of fs) ! i"
    using i by (simp add: footers_of_def footer_ys_def)
  finally show "footers_of (page1_after (Fin a b) fs) ! i
        = map2 reposition (footer_ys (Fin a b)) (footers_of fs) ! i" .
qed

lemma map2_reposition_twice:
  "length ys = length ys' \<Longrightarrow>
   map2 reposition ys (map2 reposition ys' els) = map2 reposition ys els"
proof (induction ys ys' arbitrary: els rule: list_induct2)
  case Nil
  then show ?case by simp
next
  case (Cons y ys y' ys')
  then show ?case by (cases els) (simp_all add: reposition_twice)
qed

lemma added_page_after:
  assumes "wf_json (JObj fs)" "fits_layout fs" "wf_num (Fin a b)"
  shows "new_page (page1_after (Fin a b) fs) (headers_of fs)
           (map2 reposition (footer_ys (Fin a b)) (footers_of fs)) n = added_page fs n"
proof -
  have "rule_copies (page1_after (Fin a b) fs) n = rule_copies fs n"
    by (simp add: rule_copies_def page1_after_props(2)[OF assms])
  moreover have "length (footer_ys (Fin 215 0)) = length (footer_ys (Fin a b))"
    by (simp add: footer_ys_def)
  ultimately show ?thesis
    by (simp add: new_page_def added_page_def map2_reposition_twice)
qed

lemma page_inputs_after:
  assumes "wf_json (JObj fs)" "fits_layout fs" "wf_num (Fin a b)"
  shows "page_inputs (page1_after (Fin a b) fs) = page_inputs fs"
proof -
  have "map_of (page1_after (Fin a b) fs) ''period'' = map_of fs ''period''"
    "map_of (page1_after (Fin a b) fs) ''table_period'' = map_of fs ''table_period''"
    by (simp_all add: page1_after_props(2)[OF assms] footer_keys_def)
  then show ?thesis by (simp add: page_inputs_def fun_eq_iff)
qed

lemma loop_inputs_after:
  assumes "wf_json (JObj fs)" "fits_layout fs" "wf_num (Fin a b)"
  shows "loop_inputs (page1_after (Fin a b) fs) = loop_inputs fs"
  by (simp add: loop_inputs_def fun_eq_iff page_inputs_after[OF assms])

lemma layout_after:
  assumes "wf_json (JObj fs)" "fits_layout fs" "wf_num (Fin a b)" "k \<notin> set footer_keys"
  shows "layout_field (page1_after (Fin a b) fs) k = layout_field fs k"
  by (simp add: layout_field_def page1_after_props(2)[OF assms(1-3) assms(4)])

lemma with_content_ok:
  "positioned el \<Longrightarrow> set_prop (Some el) ''content'' c = Inr (with_content c el)"
  by (erule positionedE) (simp add: set_prop_def with_content_def)

lemma readable_with_content:
  "positioned el \<Longrightarrow> k \<noteq> ''__proto__'' \<Longrightarrow> readable (k, with_content c el)"
  by (erule positionedE) (simp add: readable_def with_content_def)

lemma fill_paginate:
  assumes wf: "wf_json (JObj fs)" and fit: "fits_layout fs"
    and sch: "map_of tps ''schemas'' = Some (JArr (JObj fs # others))"
    and long: "PAGE_1_TABLE_ROWS_MAX < length rows"
  shows "fill rows (JObj tps)
         = Inr (JObj (AList.update ''schemas''
                        (JArr (JObj (first_page (page_count rows + 1) fs)
                               # map (added_page fs) [2..<page_count rows + 2]
                               @ drop (page_count rows) others)) tps),
                text_inputs (first_page (page_count rows + 1) fs)
                  ((loop_inputs fs (drop PAGE_1_TABLE_ROWS_MAX rows) (page_count rows + 1)
                      [''table'' \<mapsto> Some (JStr (stringify (JArr (take PAGE_1_TABLE_ROWS_MAX rows))))]
                      (page_count rows))
                   (''pages'' \<mapsto> Some (JStr (page_label 1 (page_count rows + 1))))))"
proof -
  let ?P = "page_count rows"
  let ?fs1 = "page1_after (Fin 214 0) fs"
  let ?hs = "headers_of fs"
  let ?ftrs1 = "map2 reposition (footer_ys (Fin 214 0)) (footers_of fs)"
  let ?label = "JStr (page_label 1 (?P + 1))"
  let ?pg = "the (map_of ?fs1 ''pages'')"
  let ?fs2 = "first_page (?P + 1) fs"
  note y = wf_num_214
  note a = page1_after_props[OF wf fit y]
  note hp = headers_props[OF wf fit]
  note fp = footers_props[OF wf fit]
  have g1: "get_prop (Some (JObj tps)) ''schemas'' = Inr (Some (JArr (JObj fs # others)))"
    using sch by (simp add: get_prop_def)
  have g2: "get_index (Some (JArr (JObj fs # others))) 0 = Inr (Some (JObj fs))"
    by (simp add: get_index_def)
  have sf: "setFooterPositions (Fin 214 0) (map Some (footers_of fs)) = Inr (map Some ?ftrs1)"
    by (rule setFooterPositions_ok[OF fp(2,4)])
  have st: "store_elements footer_keys (map Some ?ftrs1) (Some (JObj fs)) = Inr (Some (JObj ?fs1))"
    by (simp only: store_elements_ok page1_after_def)
  have f1: "\<forall>i<87. layout_field ?fs1 (field_key i)"
    using field_keys_layout[OF fits_layoutD(3)[OF fit]]
    by (simp add: layout_after[OF wf fit y])
  have hk: "layout_field fs ''period''" "layout_field fs ''table_period''"
    using fits_layoutD(1)[OF fit] by (simp_all add: header_keys_def)
  have p1: "layout_field ?fs1 ''period''" "layout_field ?fs1 ''table_period''"
    using hk by (simp_all add: layout_after[OF wf fit y] footer_keys_def)
  have ft1: "length ?ftrs1 = 4" using fp(2) by (simp add: footer_ys_def)
  have ft2: "list_all positioned ?ftrs1" "list_all wf_json ?ftrs1"
    using map2_reposition_props[OF fp(4,3) wf_footer_ys[OF y]] by simp_all
  have lp: "\<And>pl m rest n.
      fold_err (add_page (Some (JObj ?fs1)) (map Some ?hs) (map Some ?ftrs1) pl) [1..<n + 1]
           \<lparr> st_schemas = Some (JArr (JObj fs # others)), st_inputs = m, st_tableData = rest \<rparr>
         = Inr \<lparr> st_schemas = Some (JArr (JObj fs # map (added_page fs) [2..<n + 2] @ drop n others)),
                st_inputs = loop_inputs fs rest (pl + 1) m n,
                st_tableData = drop (7 * n) rest \<rparr>"
    using add_pages_ok[OF a(1) f1 p1 hp(2,3,4) ft1 ft2(2,1), of "JObj fs # others"]
    by (simp add: added_page_after[OF wf fit y] loop_inputs_after[OF wf fit y])
  have pgs: "map_of ?fs1 ''pages'' = Some ?pg" "positioned ?pg"
  proof -
    have "map_of ?fs1 (footer_keys ! 3) = Some (reposition (footer_ys (Fin 214 0) ! 3) (footers_of fs ! 3))"
      by (rule a(3)) simp
    moreover have "positioned (footers_of fs ! 3)"
      using fp(2,4) by (simp add: list_all_length)
    ultimately show "map_of ?fs1 ''pages'' = Some ?pg" "positioned ?pg"
      by (simp_all add: footer_keys_def positioned_reposition)
  qed
  have gp: "get_prop (Some (JObj ?fs1)) ''pages'' = Inr (Some ?pg)"
    using pgs(1) by (simp add: get_prop_def)
  have sp: "set_prop (Some ?pg) ''content'' ?label = Inr (with_content ?label ?pg)"
    by (rule with_content_ok[OF pgs(2)])
  have sp2: "set_prop (Some (JObj ?fs1)) ''pages'' (with_content ?label ?pg) = Inr (JObj ?fs2)"
    by (simp add: set_prop_def first_page_def)
  have en: "entries (Some (JObj ?fs2)) = Inr ?fs2"
    by (simp add: entries_def)
  have rd: "list_all readable ?fs2"
    unfolding first_page_def
    by (rule list_all_update[OF a(5)]) (rule readable_with_content[OF pgs(2)], simp)
  have ct: "\<And>m. fold_err copy_text ?fs2 m = Inr (text_inputs ?fs2 m)"
    by (rule fold_copy_text_ok[OF rd])
  have si: "\<And>xs. set_index (Some (JArr (JObj fs # xs))) 0 (JObj ?fs2) = Inr (JArr (JObj ?fs2 # xs))"
    by (simp add: set_index_def)
  have s3: "\<And>x. set_prop (Some (JObj tps)) ''schemas'' x = Inr (JObj (AList.update ''schemas'' x tps))"
    by (simp add: set_prop_def)
  show ?thesis
    unfolding fill_def Let_def
    apply (simp only: g1 g2 hp(1) fp(1) and_then_Inr long if_True num_of_int_214 sf st)
    apply (simp only: page_count_def[symmetric] lp and_then_Inr fill_state.simps gp sp sp2
              prod.case en ct option.case si s3)
    done
qed

lemma wf_row: "wf_json row"
  by (simp add: row_def)

lemma sample_rows_ok: "sample_rows n = Inr (map sample_row [0..<n])"
proof -
  have one: "\<And>i. and_then (copyOBJ (Some row)) (\<lambda>copy. set_index (Some copy) 3 (JStr (digits i)))
             = Inr (sample_row i)"
    by (simp add: copyOBJ_wf[OF wf_row]) (simp add: row_def set_index_def sample_row_def)
  have "\<And>xs. map_err (\<lambda>i. and_then (copyOBJ (Some row))
                     (\<lambda>copy. set_index (Some copy) 3 (JStr (digits i)))) xs
             = Inr (map sample_row xs)"
  proof -
    fix xs :: "nat list"
    show "map_err (\<lambda>i. and_then (copyOBJ (Some row))
                     (\<lambda>copy. set_index (Some copy) 3 (JStr (digits i)))) xs
             = Inr (map sample_row xs)"
      by (induction xs) (simp_all add: one)
  qed
  then show ?thesis by (simp add: sample_rows_def)
qed

lemma page_count_35: "length rows = 35 \<Longrightarrow> page_count rows = 5"
proof -
  assume "length rows = 35"
  then have "page_count rows = nat \<lceil>(31::real) / 7\<rceil>"
    by (simp add: page_count_def PAGE_1_TABLE_ROWS_MAX_def PAGE_2_TABLE_ROWS_MAX_def)
  also have "\<lceil>(31::real) / 7\<rceil> = 5" by (simp add: ceiling_eq_iff)
  finally show ?thesis by simp
qed

lemma page_key_starts: "take 5 (page_key N kind j) = ''page_''"
  by (simp add: page_key_def)

lemma no_page_keys_lookup:
  assumes "no_page_keys fs"
  shows "map_of fs (page_key N kind j) = None"
proof (rule ccontr)
  assume "map_of fs (page_key N kind j) \<noteq> None"
  then obtain el where "(page_key N kind j, el) \<in> set fs" by (auto dest: map_of_SomeD)
  then show False using assms page_key_starts[of N kind j]
    by (auto simp: no_page_keys_def list_all_iff)
qed



lemma generate_click_ok:
  assumes wft: "wf_json (designer_template s)" and t: "designer_template s = JObj tps"
    and sch: "map_of tps ''schemas'' = Some (JArr (JObj fs # others))"
    and fit: "fits_layout fs"
  shows "generate_click s
         = Inr (s\<lparr> generated := generated s @
                  [(JObj (AList.update ''schemas''
                            (JArr (JObj (first_page 6 fs) # map (added_page fs) [2..<7] @ drop 5 others)) tps),
                    [text_inputs (first_page 6 fs)
                       ((loop_inputs fs (drop 4 (map sample_row [0..<35])) 6
                           [''table'' \<mapsto> Some (JStr (stringify (JArr (take 4 (map sample_row [0..<35])))))] 5)
                        (''pages'' \<mapsto> Some (JStr (page_label 1 6))))])] \<rparr>)"
proof -
  let ?rows = "map sample_row [0..<35]"
  have "wf_json (JObj tps)" using wft t by simp
  then have "wf_json (JArr (JObj fs # others))" using sch by (rule wf_json_lookup)
  then have wf: "wf_json (JObj fs)" by simp
  have pc: "page_count ?rows = 5" by (rule page_count_35) simp
  have long: "PAGE_1_TABLE_ROWS_MAX < length ?rows" by (simp add: PAGE_1_TABLE_ROWS_MAX_def)
  have n: "(5::nat) + 1 = 6" "(5::nat) + 2 = 7" by simp_all
  show ?thesis
    unfolding generate_click_def getTemplateJSON_wf[OF wft] sample_rows_ok and_then_Inr t
      fill_paginate[OF wf fit sch long] pc n
    by (simp only: sum.case prod.case PAGE_1_TABLE_ROWS_MAX_def)
qed

lemma wf_sample_fields: "wf_json (JObj sample_fields)"
  using wf_sample_template by (simp add: sample_template_def sample_page_def)

lemma layout_fieldI:
  assumes "distinct (map fst fs)" "(k, el) \<in> set fs" "positioned el"
  shows "layout_field fs k"
  using assms by (simp add: layout_field_def)

lemma positioned_sample [simp]:
  "positioned (text_field c y)" "positioned (table_field y)" "positioned (line_field y)"
  by (simp_all add: positioned_def text_field_def table_field_def line_field_def)

lemma readable_sample: "list_all readable sample_fields"
  by code_simp

lemma fits_sample_fields: "fits_layout sample_fields"
proof -
  have d: "distinct (map fst sample_fields)" using wf_sample_fields by simp
  have h: "\<And>k. k \<in> set header_keys \<Longrightarrow> layout_field sample_fields k"
  proof -
    fix k assume k: "k \<in> set header_keys"
    have "(k, if k = ''table'' then table_field 77 else text_field k 11) \<in> set sample_fields"
      using k by (auto simp: sample_fields_def)
    then show "layout_field sample_fields k"
      by (rule layout_fieldI[OF d]) simp
  qed
  have f: "\<And>k. k \<in> set footer_keys \<Longrightarrow> layout_field sample_fields k"
  proof -
    fix k assume k: "k \<in> set footer_keys"
    have "(k, text_field k 277) \<in> set sample_fields"
      using k by (auto simp: sample_fields_def)
    then show "layout_field sample_fields k"
      by (rule layout_fieldI[OF d]) simp
  qed
  have r: "\<And>k. k \<in> set field_keys \<Longrightarrow> layout_field sample_fields k"
  proof -
    fix k assume "k \<in> set field_keys"
    then have "k \<in> field_key ` {0..<87}"
      unfolding field_keys_def set_map set_upt .
    then obtain i where i: "i < 87" "k = field_key i" by auto
    have "28 + i \<in> {28..<115}" using i(1) by simp
    then have "(''field'' @ digits (28 + i), line_field 73)
               \<in> (\<lambda>i. (''field'' @ digits i, line_field 73)) ` {28..<115}"
      by (rule imageI)
    then have "(''field'' @ digits (28 + i), line_field 73) \<in> set sample_fields"
      unfolding sample_fields_def set_append set_map set_upt by (intro UnI2)
    then show "layout_field sample_fields k"
      unfolding i(2) field_key_def by (rule layout_fieldI[OF d]) simp
  qed
  show ?thesis
    unfolding fits_layout_def using h f r readable_sample
    by (auto simp: list_all_iff)
qed

lemma no_page_keys_sample: "no_page_keys sample_fields"
  by code_simp

lemma sample_table_not_text: "\<not> is_text (the (map_of sample_fields ''table''))"
  by code_simp

lemma footer_ys_214: "footer_ys (Fin 214 0) = [Fin 214 0, Fin 23 1, Fin 228 0, Fin 239 0]"
  by (simp add: footer_ys_def num_add_def mk_num_def norm10.simps)

lemma footer_ys_215: "footer_ys (Fin 215 0) = [Fin 215 0, Fin 231 0, Fin 229 0, Fin 24 1]"
  by (simp add: footer_ys_def num_add_def mk_num_def norm10.simps)

lemma header_ys_10:
  "header_ys (Fin 1 1) = [Fin 1 1, Fin 2 1, Fin 224 (- 1), Fin 15 0, Fin 43 0, Fin 45 0,
                          Fin 51 0, Fin 65 0, Fin 69 0, Fin 69 0, Fin 77 0]"
  by (simp add: header_ys_def num_add_def mk_num_def norm10.simps)

lemma page_label_6: "page_label 1 6 = ''Page 1 of 6''" "page_label (Suc 0) 6 = ''Page 1 of 6''"
  by (simp_all add: page_label_def digits.simps digit_char_def)

lemma page_key_not_footer [simp]: "page_key N kind j \<notin> set footer_keys"
  by (simp add: page_key_def footer_keys_def)

lemma page_key_not_pages [simp]: "page_key N kind j \<noteq> ''pages''"
  by (simp add: page_key_def)

lemma first_page_keys:
  assumes "wf_json (JObj fs)" "fits_layout fs"
  shows "map fst (first_page c fs) = map fst fs"
proof -
  note a = page1_after_props[OF assms wf_num_214]
  have p: "''pages'' \<in> fst ` set fs"
    using fits_layoutD(2)[OF assms(2)] by (auto simp: footer_keys_def dest: layout_key_in_dom)
  have e: "fst ` set (page1_after (Fin 214 0) fs) = fst ` set fs"
    using arg_cong[OF a(4), of set] by simp
  show ?thesis
    using a(4) p e by (simp add: first_page_def update_keys)
qed

lemma first_page_lookup:
  assumes "wf_json (JObj fs)" "fits_layout fs"
  shows "\<And>k. k \<notin> set footer_keys \<Longrightarrow> map_of (first_page c fs) k = map_of fs k"
    and "\<And>i. i < 3 \<Longrightarrow> map_of (first_page c fs) (footer_keys ! i)
                 = Some (reposition (footer_ys (Fin 214 0) ! i) (the (map_of fs (footer_keys ! i))))"
    and "map_of (first_page c fs) ''pages''
         = Some (with_content (JStr (page_label 1 c)) (reposition (Fin 239 0) (the (map_of fs ''pages''))))"
proof -
  note a = page1_after_props[OF assms wf_num_214]
  show "\<And>k. k \<notin> set footer_keys \<Longrightarrow> map_of (first_page c fs) k = map_of fs k"
  proof -
    fix k assume k: "k \<notin> set footer_keys"
    then have "k \<noteq> ''pages''" by (auto simp: footer_keys_def)
    then show "map_of (first_page c fs) k = map_of fs k"
      using a(2)[OF k] by (simp add: first_page_def update_conv')
  qed
  show "\<And>i. i < 3 \<Longrightarrow> map_of (first_page c fs) (footer_keys ! i)
                 = Some (reposition (footer_ys (Fin 214 0) ! i) (the (map_of fs (footer_keys ! i))))"
  proof -
    fix i :: nat assume i: "i < 3"
    then have ne: "footer_keys ! i \<noteq> ''pages''"
      by (auto simp: footer_keys_def nth_Cons' )
    have "i < 4" using i by simp
    from a(3)[OF this] have "map_of (page1_after (Fin 214 0) fs) (footer_keys ! i)
          = Some (reposition (footer_ys (Fin 214 0) ! i) (footers_of fs ! i))" .
    moreover have "footers_of fs ! i = the (map_of fs (footer_keys ! i))"
      using i by (simp add: footers_of_def)
    ultimately show "map_of (first_page c fs) (footer_keys ! i)
                 = Some (reposition (footer_ys (Fin 214 0) ! i) (the (map_of fs (footer_keys ! i))))"
      using ne by (simp add: first_page_def update_conv')
  qed
  have "map_of (page1_after (Fin 214 0) fs) (footer_keys ! 3)
          = Some (reposition (footer_ys (Fin 214 0) ! 3) (footers_of fs ! 3))"
    by (rule a(3)) simp
  then have "map_of (page1_after (Fin 214 0) fs) ''pages''
          = Some (reposition (Fin 239 0) (the (map_of fs ''pages'')))"
    by (simp add: footer_keys_def footer_ys_214 footers_of_def)
  then show "map_of (first_page c fs) ''pages''
         = Some (with_content (JStr (page_label 1 c)) (reposition (Fin 239 0) (the (map_of fs ''pages''))))"
    by (simp add: first_page_def update_conv')
qed

lemma content_of_with_content:
  "positioned el \<Longrightarrow> content_of (with_content c el) = Some c"
  by (erule positionedE) (simp add: content_of_def with_content_def update_conv')

lemma pages_positioned:
  assumes "fits_layout fs"
  shows "positioned (reposition y (the (map_of fs ''pages'')))"
proof -
  have "layout_field fs ''pages''"
    using fits_layoutD(2)[OF assms] by (simp add: footer_keys_def)
  then show ?thesis by (auto dest: layout_field_Some intro: positioned_reposition)
qed

lemma inputs_pages:
  assumes "wf_json (JObj fs)" "fits_layout fs"
  shows "text_inputs (first_page c fs) (m(''pages'' \<mapsto> Some (JStr (page_label 1 c)))) ''pages''
         = Some (Some (JStr (page_label 1 c)))"
proof -
  have d: "distinct (map fst (first_page c fs))"
    using assms(1) by (simp add: first_page_keys[OF assms])
  show ?thesis
    unfolding text_inputs_lookup[OF d] first_page_lookup(3)[OF assms]
    by (simp add: content_of_with_content[OF pages_positioned[OF assms(2)]])
qed

lemma inputs_page_key:
  assumes "wf_json (JObj fs)" "fits_layout fs" "no_page_keys fs"
  shows "text_inputs (first_page c fs) m (page_key N kind j) = m (page_key N kind j)"
proof -
  have d: "distinct (map fst (first_page c fs))"
    using assms(1) by (simp add: first_page_keys[OF assms(1,2)])
  have "map_of (first_page c fs) (page_key N kind j) = None"
    using first_page_lookup(1)[OF assms(1,2), of "page_key N kind j" c]
      no_page_keys_lookup[OF assms(3)] by simp
  then show ?thesis
    unfolding text_inputs_lookup[OF d] by simp
qed

lemma inputs_table:
  assumes "wf_json (JObj fs)" "fits_layout fs" "\<not> is_text (the (map_of fs ''table''))"
  shows "text_inputs (first_page c fs) m ''table'' = m ''table''"
proof -
  have d: "distinct (map fst (first_page c fs))"
    using assms(1) by (simp add: first_page_keys[OF assms(1,2)])
  have "map_of (first_page c fs) ''table'' = map_of fs ''table''"
    by (rule first_page_lookup(1)[OF assms(1,2)]) (simp add: footer_keys_def)
  then show ?thesis
    unfolding text_inputs_lookup[OF d] using assms(3) by (auto split: option.splits)
qed

lemma page_inputs_values:
  "page_inputs fs chunk c N (page_key N ''header_el'' 11) = Some (Some (JStr (stringify (JArr chunk))))"
  "page_inputs fs chunk c N (page_key N ''header_el'' 7) = Some (content_of (the (map_of fs ''period'')))"
  "page_inputs fs chunk c N (page_key N ''header_el'' 10) = Some (content_of (the (map_of fs ''table_period'')))"
  "page_inputs fs chunk c N (page_key N ''footer_el'' 4) = Some (Some (JStr (page_label N c)))"
  by (simp_all add: page_inputs_def)

lemma loop_inputs_values:
  assumes "2 \<le> n" "n \<le> p + 1"
  shows "loop_inputs fs rest c m p (page_key n ''header_el'' 11)
           = Some (Some (JStr (stringify (JArr (take 7 (drop (7 * (n - 2)) rest))))))"
    and "loop_inputs fs rest c m p (page_key n ''header_el'' 7)
           = Some (content_of (the (map_of fs ''period'')))"
    and "loop_inputs fs rest c m p (page_key n ''header_el'' 10)
           = Some (content_of (the (map_of fs ''table_period'')))"
    and "loop_inputs fs rest c m p (page_key n ''footer_el'' 4)
           = Some (Some (JStr (page_label n c)))"
proof -
  have i: "1 \<le> n - 1" "n - 1 \<le> p" using assms by simp_all
  have e: "n - 1 + 1 = n" "n - 1 - 1 = n - 2" using assms by simp_all
  have l: "\<And>k. page_inputs fs (take 7 (drop (7 * (n - 2)) rest)) c n k \<noteq> None \<Longrightarrow>
     loop_inputs fs rest c m p k = page_inputs fs (take 7 (drop (7 * (n - 2)) rest)) c n k"
  proof -
    fix k assume "page_inputs fs (take 7 (drop (7 * (n - 2)) rest)) c n k \<noteq> None"
    then have "page_inputs fs (take 7 (drop (7 * (n - 1 - 1)) rest)) c (n - 1 + 1) k \<noteq> None"
      unfolding e .
    from loop_inputs_page[OF i(1,2) this, of m]
    show "loop_inputs fs rest c m p k = page_inputs fs (take 7 (drop (7 * (n - 2)) rest)) c n k"
      unfolding e .
  qed
  show "loop_inputs fs rest c m p (page_key n ''header_el'' 11)
           = Some (Some (JStr (stringify (JArr (take 7 (drop (7 * (n - 2)) rest))))))"
    by (subst l) (simp_all add: page_inputs_values)
  show "loop_inputs fs rest c m p (page_key n ''header_el'' 7)
           = Some (content_of (the (map_of fs ''period'')))"
    by (subst l) (simp_all add: page_inputs_values)
  show "loop_inputs fs rest c m p (page_key n ''header_el'' 10)
           = Some (content_of (the (map_of fs ''table_period'')))"
    by (subst l) (simp_all add: page_inputs_values)
  show "loop_inputs fs rest c m p (page_key n ''footer_el'' 4)
           = Some (Some (JStr (page_label n c)))"
    by (subst l) (simp_all add: page_inputs_values)
qed

lemma loop_inputs_table: "loop_inputs fs rest c m p ''table'' = m ''table''"
  by (rule loop_inputs_other) (simp add: page_key_def)

lemma schemas_object:
  assumes "get_prop (Some t) ''schemas'' = Inr (Some v)"
  obtains tps where "t = JObj tps" "map_of tps ''schemas'' = Some v"
  using assms by (cases t) (auto simp: get_prop_def)

lemma generate_result:
  assumes wft: "wf_json (designer_template s)"
    and sch: "get_prop (Some (designer_template s)) ''schemas'' = Inr (Some (JArr (JObj fs # others)))"
    and fit: "fits_layout fs"
  shows "\<exists>doc. generate_click s = Inr (s\<lparr> generated := generated s @ [(doc, [generated_inputs fs])] \<rparr>)
             \<and> get_prop (Some doc) ''schemas'' = Inr (Some (JArr (generated_pages fs others)))
             \<and> (\<forall>k. k \<noteq> ''schemas'' \<longrightarrow> get_prop (Some doc) k = get_prop (Some (designer_template s)) k)"
proof -
  from sch obtain tps where t: "designer_template s = JObj tps"
    and m: "map_of tps ''schemas'' = Some (JArr (JObj fs # others))"
    by (rule schemas_object)
  let ?doc = "JObj (AList.update ''schemas'' (JArr (generated_pages fs others)) tps)"
  have "generate_click s = Inr (s\<lparr> generated := generated s @ [(?doc, [generated_inputs fs])] \<rparr>)"
    unfolding generate_click_ok[OF wft t m fit] generated_pages_def generated_inputs_def ..
  moreover have "get_prop (Some ?doc) ''schemas'' = Inr (Some (JArr (generated_pages fs others)))"
    by (simp add: get_prop_def update_conv')
  moreover have "\<forall>k. k \<noteq> ''schemas'' \<longrightarrow> get_prop (Some ?doc) k = get_prop (Some (designer_template s)) k"
    by (simp add: get_prop_def update_conv' t)
  ultimately show ?thesis by blast
qed

lemma wf_page_of_template:
  assumes "wf_json t" "get_prop (Some t) ''schemas'' = Inr (Some (JArr (JObj fs # others)))"
  shows "wf_json (JObj fs)"
proof -
  from assms(2) obtain tps where t: "t = JObj tps"
    and m: "map_of tps ''schemas'' = Some (JArr (JObj fs # others))"
    by (rule schemas_object)
  have "wf_json (JObj tps)" using assms(1) t by simp
  then have "wf_json (JArr (JObj fs # others))" using m by (rule wf_json_lookup)
  then show ?thesis by simp
qed

lemma length_generated_pages: "length (generated_pages fs others) = max 6 (Suc (length others))"
  by (simp add: generated_pages_def)

lemma generated_pages_nth:
  assumes "2 \<le> n" "n \<le> 6"
  shows "generated_pages fs others ! (n - 1) = added_page fs n"
proof -
  have n: "n - 1 = Suc (n - 2)" "n - 2 < 5" using assms by simp_all
  have "map (added_page fs) [2..<7] ! (n - 2) = added_page fs (2 + (n - 2))"
    using n(2) by (simp only: nth_map length_upt nth_upt)
  moreover have "2 + (n - 2) = n" using assms by simp
  moreover have "(map (added_page fs) [2..<7] @ drop 5 others) ! (n - 2)
                 = map (added_page fs) [2..<7] ! (n - 2)"
    using n(2) by (simp only: nth_append length_map length_upt) simp
  ultimately show ?thesis
    unfolding generated_pages_def n(1) nth_Cons_Suc by (simp only:)
qed

lemma sample_schemas:
  "get_prop (Some (designer_template sample_app)) ''schemas'' = Inr (Some (JArr (JObj sample_fields # [])))"
  by (simp add: sample_app_def sample_template_def sample_page_def get_prop_def)

lemma wf_sample_app: "wf_json (designer_template sample_app)"
  by (simp add: sample_app_def wf_sample_template)

lemma map_shift_upt: "map f [a..<a + n] = map (\<lambda>i. f (i + a)) [0..<n]"
proof -
  have "[a..<a + n] = map (\<lambda>i. i + a) [0..<n]"
    by (simp add: map_add_upt add.commute)
  then show ?thesis by (simp only: map_map comp_def)
qed

lemma page_keys_upt: "page_keys n kind m = map (page_key n kind) [1..<1 + m]"
  unfolding page_keys_def map_shift_upt ..

lemma rule_copies_upt:
  "rule_copies fs n
   = map (\<lambda>i. (page_key n ''table_hr'' (i - 27),
               reposition (Fin 9 1) (the (map_of fs (''field'' @ digits i))))) [28..<28 + 87]"
  unfolding rule_copies_def map_shift_upt field_key_def
  by (simp add: add.commute del: upt_Suc)

lemma added_page_expected: "added_page fs n = expected_page fs n"
proof -
  have a: "(1::nat) + 11 = 12" "(1::nat) + 4 = 5" "(28::nat) + 87 = 115" by simp_all
  show ?thesis
    unfolding added_page_def new_page_def expected_page_def page_keys_upt rule_copies_upt a ..
qed

lemma take_take_drop:
  "take a xs @ take b (drop a xs) @ ys = take (a + b) xs @ ys"
  "take a xs @ take b (drop a xs) = take (a + b) xs"
  by (simp_all add: take_add)

lemma chunks_concat:
  assumes "length rows = 35"
  shows "concat (map (page_rows rows) [1..<7]) = rows"
proof -
  have u: "[1..<7] = [1, 2, 3, 4, 5, 6::nat]" by (simp add: upt_rec)
  have "concat (map (page_rows rows) [1..<7])
        = take 4 rows @ take 7 (drop 4 rows) @ take 7 (drop 11 rows) @ take 7 (drop 18 rows)
          @ take 7 (drop 25 rows) @ take 7 (drop 32 rows) @ []"
    unfolding u by (simp add: page_rows_def)
  also have "\<dots> = take 39 rows"
    by (simp add: take_take_drop)
  also have "\<dots> = rows" using assms by simp
  finally show ?thesis .
qed

lemma chunks_lengths:
  assumes "length rows = 35"
  shows "map (length \<circ> page_rows rows) [1..<7] = [4, 7, 7, 7, 7, 3]"
proof -
  have u: "[1..<7] = [1, 2, 3, 4, 5, 6::nat]" by (simp add: upt_rec)
  show ?thesis unfolding u using assms by (simp add: page_rows_def)
qed

lemma wf_sample_row: "wf_json (sample_row i)"
  by (simp add: sample_row_def)

lemma wf_chunk: "list_all wf_json rows \<Longrightarrow> wf_json (JArr (page_rows rows n))"
  by (auto simp: page_rows_def list_all_iff dest: in_set_takeD in_set_dropD)

lemma generated_inputs_table:
  assumes "wf_json (JObj fs)" "fits_layout fs" "no_page_keys fs" "\<not> is_text (the (map_of fs ''table''))"
    and "n \<in> {1..6}"
  shows "generated_inputs fs (table_key n)
         = Some (Some (JStr (stringify (JArr (page_rows (map sample_row [0..<35]) n)))))"
proof (cases "n = 1")
  case True
  then have t: "table_key n = ''table''" "page_rows (map sample_row [0..<35]) n = take 4 (map sample_row [0..<35])"
    by (simp_all only: table_key_def page_rows_def if_True refl)
  show ?thesis
    unfolding t generated_inputs_def inputs_table[OF assms(1,2,4)]
    by (simp add: loop_inputs_table del: upt_Suc take_map take_upt)
next
  case False
  then have n: "2 \<le> n" "n \<le> 5 + 1" using assms(5) by simp_all
  have d: "drop (7 * (n - 2)) (drop 4 (map sample_row [0..<35]))
           = drop (4 + 7 * (n - 2)) (map sample_row [0..<35])"
    by (simp only: drop_drop add.commute)
  have t: "table_key n = page_key n ''header_el'' 11"
    "page_rows (map sample_row [0..<35]) n = take 7 (drop (4 + 7 * (n - 2)) (map sample_row [0..<35]))"
    using False by (simp_all only: table_key_def page_rows_def if_False refl)
  show ?thesis
    unfolding t generated_inputs_def inputs_page_key[OF assms(1,2,3)]
    by (simp add: loop_inputs_values(1)[OF n] add.commute del: upt_Suc drop_map drop_upt take_map take_upt)
qed

lemma generated_inputs_page:
  assumes "wf_json (JObj fs)" "fits_layout fs" "no_page_keys fs" "2 \<le> n" "n \<le> 6"
  shows "generated_inputs fs (page_key n ''header_el'' 11)
           = Some (Some (JStr (stringify (JArr (take 7 (drop (4 + 7 * (n - 2)) (map sample_row [0..<35])))))))"
    and "generated_inputs fs (page_key n ''header_el'' 7) = Some (content_of (the (map_of fs ''period'')))"
    and "generated_inputs fs (page_key n ''header_el'' 10) = Some (content_of (the (map_of fs ''table_period'')))"
    and "generated_inputs fs (page_key n ''footer_el'' 4) = Some (Some (JStr (page_label n 6)))"
proof -
  have n: "2 \<le> n" "n \<le> 5 + 1" using assms(4,5) by simp_all
  have t: "generated_inputs fs (page_key n ''header_el'' 11)
           = Some (Some (JStr (stringify (JArr (page_rows (map sample_row [0..<35]) n)))))"
    using generated_inputs_table[OF assms(1,2,3), of n] assms(4,5)
    unfolding generated_inputs_def inputs_page_key[OF assms(1,2,3)]
    by (simp add: loop_inputs_values(1)[OF n] page_rows_def add.commute
          del: upt_Suc drop_map drop_upt take_map take_upt)
  have c: "page_rows (map sample_row [0..<35]) n = take 7 (drop (4 + 7 * (n - 2)) (map sample_row [0..<35]))"
    using assms(4) by (simp only: page_rows_def) simp
  show "generated_inputs fs (page_key n ''header_el'' 11)
           = Some (Some (JStr (stringify (JArr (take 7 (drop (4 + 7 * (n - 2)) (map sample_row [0..<35])))))))"
    using t unfolding c .
  show "generated_inputs fs (page_key n ''header_el'' 7) = Some (content_of (the (map_of fs ''period'')))"
    unfolding generated_inputs_def inputs_page_key[OF assms(1,2,3)]
    by (simp add: loop_inputs_values(2)[OF n])
  show "generated_inputs fs (page_key n ''header_el'' 10) = Some (content_of (the (map_of fs ''table_period'')))"
    unfolding generated_inputs_def inputs_page_key[OF assms(1,2,3)]
    by (simp add: loop_inputs_values(3)[OF n])
  show "generated_inputs fs (page_key n ''footer_el'' 4) = Some (Some (JStr (page_label n 6)))"
    unfolding generated_inputs_def inputs_page_key[OF assms(1,2,3)]
    by (simp add: loop_inputs_values(4)[OF n])
qed

text \<open>
  Claim C3. Let the first page of the document have the expected layout and no field whose
  name starts with \<^verbatim>\<open>page_\<close>. Then for each \<open>n\<close> from 2 to 6 the page at index
  \<open>n - 1\<close> of the document passed to the generator is \<open>expected_page fs n\<close>: the eleven
  header elements under the keys \<^verbatim>\<open>page_n_header_el_1\<close> to \<^verbatim>\<open>page_n_header_el_11\<close>
  with the vertical positions 10, 20, 22.4, 15, 43, 45, 51, 65, 69, 69 and 77, the four
  footer elements under \<^verbatim>\<open>page_n_footer_el_1\<close> to \<^verbatim>\<open>page_n_footer_el_4\<close> with the
  positions 215, 231, 229 and 240, and the fields \<^verbatim>\<open>field28\<close> to \<^verbatim>\<open>field114\<close> under
  \<^verbatim>\<open>page_n_table_hr_1\<close> to \<^verbatim>\<open>page_n_table_hr_87\<close> with the position 90, each otherwise
  equal to the element of the first page. The value map holds the serialised next seven
  rows (or fewer) under the key of the copied table, the contents of the \<^verbatim>\<open>period\<close> and
  \<^verbatim>\<open>table_period\<close> fields under the keys of their copies, and the page label under the
  key of the copied \<^verbatim>\<open>pages\<close> field.
\<close>

theorem C3_added_page:
  assumes "wf_json (designer_template s)"
    and "get_prop (Some (designer_template s)) ''schemas'' = Inr (Some (JArr (JObj fs # others)))"
    and "fits_layout fs" and "no_page_keys fs"
    and "2 \<le> n" and "n \<le> 6"
  shows "\<exists>doc inputs pages.
           generate_click s = Inr (s\<lparr> generated := generated s @ [(doc, [inputs])] \<rparr>)
         \<and> get_prop (Some doc) ''schemas'' = Inr (Some (JArr pages))
         \<and> n - 1 < length pages
         \<and> pages ! (n - 1) = expected_page fs n
         \<and> header_ys (Fin 1 1) = [Fin 1 1, Fin 2 1, Fin 224 (- 1), Fin 15 0, Fin 43 0, Fin 45 0,
                                   Fin 51 0, Fin 65 0, Fin 69 0, Fin 69 0, Fin 77 0]
         \<and> footer_ys (Fin 215 0) = [Fin 215 0, Fin 231 0, Fin 229 0, Fin 24 1]
         \<and> inputs (page_key n ''header_el'' 11)
             = Some (Some (JStr (stringify (JArr (take 7 (drop (4 + 7 * (n - 2)) (map sample_row [0..<35])))))))
         \<and> inputs (page_key n ''header_el'' 7) = Some (content_of (the (map_of fs ''period'')))
         \<and> inputs (page_key n ''header_el'' 10) = Some (content_of (the (map_of fs ''table_period'')))
         \<and> inputs (page_key n ''footer_el'' 4) = Some (Some (JStr (page_label n 6)))"
proof -
  have wf: "wf_json (JObj fs)" by (rule wf_page_of_template[OF assms(1,2)])
  from generate_result[OF assms(1-3)] obtain doc where
    g: "generate_click s = Inr (s\<lparr> generated := generated s @ [(doc, [generated_inputs fs])] \<rparr>)"
    and p: "get_prop (Some doc) ''schemas'' = Inr (Some (JArr (generated_pages fs others)))"
    by blast
  have l: "n - 1 < length (generated_pages fs others)"
    using assms(6) by (simp add: length_generated_pages)
  have e: "generated_pages fs others ! (n - 1) = expected_page fs n"
    using generated_pages_nth[OF assms(5,6)] by (simp only: added_page_expected)
  note i = generated_inputs_page[OF wf assms(3-6)]
  from g p l e header_ys_10 footer_ys_215 i show ?thesis by blast
qed

theorem C3_added_page_witness:
  "wf_json (designer_template sample_app)
   \<and> get_prop (Some (designer_template sample_app)) ''schemas'' = Inr (Some (JArr [JObj sample_fields]))
   \<and> fits_layout sample_fields \<and> no_page_keys sample_fields
   \<and> (\<exists>doc inputs pages.
         generate_click sample_app = Inr (sample_app\<lparr> generated := [(doc, [inputs])] \<rparr>)
       \<and> get_prop (Some doc) ''schemas'' = Inr (Some (JArr pages))
       \<and> pages ! 1 = expected_page sample_fields 2
       \<and> inputs ''page_2_header_el_11'' = Some (Some (JStr (stringify (JArr (map sample_row [4..<11])))))
       \<and> inputs ''page_2_header_el_7'' = Some (Some (JStr ''period''))
       \<and> inputs ''page_2_header_el_10'' = Some (Some (JStr ''table_period''))
       \<and> inputs ''page_2_footer_el_4'' = Some (Some (JStr ''Page 2 of 6'')))"
proof -
  have k: "page_key 2 ''header_el'' 11 = ''page_2_header_el_11''"
    "page_key 2 ''header_el'' 7 = ''page_2_header_el_7''"
    "page_key 2 ''header_el'' 10 = ''page_2_header_el_10''"
    "page_key 2 ''footer_el'' 4 = ''page_2_footer_el_4''"
    "page_label 2 6 = ''Page 2 of 6''"
    by (simp_all add: page_key_def page_label_def digits.simps digit_char_def)
  have c: "take 7 (drop (4 + 7 * (2 - 2)) (map sample_row [0..<35])) = map sample_row [4..<11]"
    by (simp add: take_map drop_map del: upt_Suc)
  have d: "distinct (map fst sample_fields)" using wf_sample_fields by simp
  have "(''period'', text_field ''period'' 11) \<in> set sample_fields"
    "(''table_period'', text_field ''table_period'' 11) \<in> set sample_fields"
    by (simp_all add: sample_fields_def header_keys_def)
  then have m: "map_of sample_fields ''period'' = Some (text_field ''period'' 11)"
    "map_of sample_fields ''table_period'' = Some (text_field ''table_period'' 11)"
    using d by simp_all
  have v: "content_of (the (map_of sample_fields ''period'')) = Some (JStr ''period'')"
    "content_of (the (map_of sample_fields ''table_period'')) = Some (JStr ''table_period'')"
    unfolding m by (simp_all add: content_of_def text_field_def)
  have g: "generated sample_app = []" by (simp add: sample_app_def)
  have n: "(2::nat) \<le> 2" "(2::nat) \<le> 6" "(2::nat) - 1 = 1" by simp_all
  from C3_added_page[OF wf_sample_app sample_schemas fits_sample_fields no_page_keys_sample n(1,2)]
  obtain doc inputs pages where
    "generate_click sample_app = Inr (sample_app\<lparr> generated := generated sample_app @ [(doc, [inputs])] \<rparr>)"
    "get_prop (Some doc) ''schemas'' = Inr (Some (JArr pages))"
    "pages ! (2 - 1) = expected_page sample_fields 2"
    "inputs (page_key 2 ''header_el'' 11)
       = Some (Some (JStr (stringify (JArr (take 7 (drop (4 + 7 * (2 - 2)) (map sample_row [0..<35])))))))"
    "inputs (page_key 2 ''header_el'' 7) = Some (content_of (the (map_of sample_fields ''period'')))"
    "inputs (page_key 2 ''header_el'' 10) = Some (content_of (the (map_of sample_fields ''table_period'')))"
    "inputs (page_key 2 ''footer_el'' 4) = Some (Some (JStr (page_label 2 6)))"
    by blast
  then have "generate_click sample_app = Inr (sample_app\<lparr> generated := [(doc, [inputs])] \<rparr>)
       \<and> get_prop (Some doc) ''schemas'' = Inr (Some (JArr pages))
       \<and> pages ! 1 = expected_page sample_fields 2
       \<and> inputs ''page_2_header_el_11'' = Some (Some (JStr (stringify (JArr (map sample_row [4..<11])))))
       \<and> inputs ''page_2_header_el_7'' = Some (Some (JStr ''period''))
       \<and> inputs ''page_2_header_el_10'' = Some (Some (JStr ''table_period''))
       \<and> inputs ''page_2_footer_el_4'' = Some (Some (JStr ''Page 2 of 6''))"
    unfolding k c v g n(3) by simp
  then show ?thesis
    using wf_sample_app sample_schemas fits_sample_fields no_page_keys_sample by blast
qed

text \<open>
  Claim C9. Let \<open>rows\<close> be the 35 rows the handler builds, and let the first page have the
  expected layout, a \<^verbatim>\<open>table\<close> field that is not a text field and no field whose name
  starts with \<^verbatim>\<open>page_\<close>. Then the value map holds, under the table key of each of the six
  pages, the serialisation of that page's chunk; the text decodes to the chunk; the chunks
  have 4, 7, 7, 7, 7 and 3 rows; and their concatenation in page order is \<open>rows\<close>.
\<close>

theorem C9_chunks_partition:
  assumes "wf_json (designer_template s)"
    and "get_prop (Some (designer_template s)) ''schemas'' = Inr (Some (JArr (JObj fs # others)))"
    and "fits_layout fs" and "no_page_keys fs"
    and "\<not> is_text (the (map_of fs ''table''))"
    and "sample_rows 35 = Inr rows"
  shows "\<exists>doc inputs.
           generate_click s = Inr (s\<lparr> generated := generated s @ [(doc, [inputs])] \<rparr>)
         \<and> (\<forall>n\<in>{1..6}. inputs (table_key n) = Some (Some (JStr (stringify (JArr (page_rows rows n)))))
                        \<and> JSON_parse (stringify (JArr (page_rows rows n))) = Inr (JArr (page_rows rows n)))
         \<and> map (length \<circ> page_rows rows) [1..<7] = [4, 7, 7, 7, 7, 3]
         \<and> concat (map (page_rows rows) [1..<7]) = rows
         \<and> length rows = 35"
proof -
  have wf: "wf_json (JObj fs)" by (rule wf_page_of_template[OF assms(1,2)])
  have rows: "rows = map sample_row [0..<35]"
    using assms(6) by (simp only: sample_rows_ok sum.inject)
  have len: "length rows = 35" unfolding rows by simp
  have wfr: "list_all wf_json rows" unfolding rows by (simp add: list_all_iff wf_sample_row)
  from generate_result[OF assms(1-3)] obtain doc where
    g: "generate_click s = Inr (s\<lparr> generated := generated s @ [(doc, [generated_inputs fs])] \<rparr>)"
    by blast
  have t: "\<forall>n\<in>{1..6}. generated_inputs fs (table_key n) = Some (Some (JStr (stringify (JArr (page_rows rows n)))))
                        \<and> JSON_parse (stringify (JArr (page_rows rows n))) = Inr (JArr (page_rows rows n))"
  proof
    fix n :: nat assume n: "n \<in> {1..6}"
    show "generated_inputs fs (table_key n) = Some (Some (JStr (stringify (JArr (page_rows rows n)))))
                        \<and> JSON_parse (stringify (JArr (page_rows rows n))) = Inr (JArr (page_rows rows n))"
      unfolding rows
      using generated_inputs_table[OF wf assms(3,4,5) n]
        JSON_parse_stringify[OF wf_chunk[OF wfr[unfolded rows], of n]]
      by (rule conjI)
  qed
  show ?thesis
    by (rule exI[of _ doc], rule exI[of _ "generated_inputs fs"])
       (intro conjI g t chunks_lengths[OF len] chunks_concat[OF len] len)
qed

theorem C9_chunks_partition_witness:
  "wf_json (designer_template sample_app)
   \<and> get_prop (Some (designer_template sample_app)) ''schemas'' = Inr (Some (JArr [JObj sample_fields]))
   \<and> fits_layout sample_fields \<and> no_page_keys sample_fields
   \<and> \<not> is_text (the (map_of sample_fields ''table''))
   \<and> sample_rows 35 = Inr (map sample_row [0..<35])
   \<and> (\<exists>doc inputs.
         generate_click sample_app = Inr (sample_app\<lparr> generated := [(doc, [inputs])] \<rparr>)
       \<and> inputs ''table'' = Some (Some (JStr (stringify (JArr (map sample_row [0..<4])))))
       \<and> inputs ''page_6_header_el_11'' = Some (Some (JStr (stringify (JArr (map sample_row [32..<35])))))
       \<and> concat (map (page_rows (map sample_row [0..<35])) [1..<7]) = map sample_row [0..<35])"
proof -
  have k: "table_key 1 = ''table''" "table_key 6 = ''page_6_header_el_11''"
    by (simp_all add: table_key_def page_key_def digits.simps digit_char_def)
  have c: "page_rows (map sample_row [0..<35]) 1 = map sample_row [0..<4]"
    "page_rows (map sample_row [0..<35]) 6 = map sample_row [32..<35]"
    by (simp_all add: page_rows_def take_map drop_map del: upt_Suc)
  have g: "generated sample_app = []" by (simp add: sample_app_def)
  from C9_chunks_partition[OF wf_sample_app sample_schemas fits_sample_fields no_page_keys_sample
      sample_table_not_text sample_rows_ok]
  obtain doc inputs where
    r: "generate_click sample_app = Inr (sample_app\<lparr> generated := generated sample_app @ [(doc, [inputs])] \<rparr>)"
      "concat (map (page_rows (map sample_row [0..<35])) [1..<7]) = map sample_row [0..<35]"
    and a: "\<forall>n\<in>{1..6}. inputs (table_key n)
                 = Some (Some (JStr (stringify (JArr (page_rows (map sample_row [0..<35]) n)))))
               \<and> JSON_parse (stringify (JArr (page_rows (map sample_row [0..<35]) n)))
                 = Inr (JArr (page_rows (map sample_row [0..<35]) n))"
    by blast
  have "inputs (table_key 1) = Some (Some (JStr (stringify (JArr (page_rows (map sample_row [0..<35]) 1)))))"
    "inputs (table_key 6) = Some (Some (JStr (stringify (JArr (page_rows (map sample_row [0..<35]) 6)))))"
    using a by simp_all
  then have i: "inputs ''table'' = Some (Some (JStr (stringify (JArr (map sample_row [0..<4])))))"
    "inputs ''page_6_header_el_11'' = Some (Some (JStr (stringify (JArr (map sample_row [32..<35])))))"
    unfolding k c by simp_all
  have "generate_click sample_app = Inr (sample_app\<lparr> generated := [(doc, [inputs])] \<rparr>)"
    using r(1) g by simp
  then show ?thesis
    using r(2) i wf_sample_app sample_schemas fits_sample_fields no_page_keys_sample
      sample_table_not_text sample_rows_ok
    by blast
qed

text \<open>
  Claim C10. Let the first page of the document have the expected layout. In the document
  passed to the generator the first page has the keys of the original in the same order;
  every field other than the four footer elements, the eleven header elements among them,
  is the original field; the first three footer elements are the originals with the
  vertical positions 214, 230 and 228; the \<^verbatim>\<open>pages\<close> field is the original with the
  position 239 and the content \<^verbatim>\<open>Page 1 of 6\<close>. Outside \<^verbatim>\<open>schemas\<close> the document is
  the snapshot.
\<close>

theorem C10_first_page_frame:
  assumes "wf_json (designer_template s)"
    and "get_prop (Some (designer_template s)) ''schemas'' = Inr (Some (JArr (JObj fs # others)))"
    and "fits_layout fs"
  shows "\<exists>doc inputs pages page1.
           generate_click s = Inr (s\<lparr> generated := generated s @ [(doc, [inputs])] \<rparr>)
         \<and> get_prop (Some doc) ''schemas'' = Inr (Some (JArr pages))
         \<and> get_index (Some (JArr pages)) 0 = Inr (Some (JObj page1))
         \<and> map fst page1 = map fst fs
         \<and> (\<forall>k. k \<notin> set footer_keys \<longrightarrow> map_of page1 k = map_of fs k)
         \<and> (\<forall>k\<in>set header_keys. map_of page1 k = map_of fs k)
         \<and> (\<forall>i<3. map_of page1 (footer_keys ! i)
                     = Some (reposition ([Fin 214 0, Fin 23 1, Fin 228 0] ! i) (the (map_of fs (footer_keys ! i)))))
         \<and> map_of page1 ''pages''
             = Some (with_content (JStr ''Page 1 of 6'') (reposition (Fin 239 0) (the (map_of fs ''pages''))))
         \<and> (\<forall>k. k \<noteq> ''schemas'' \<longrightarrow> get_prop (Some doc) k = get_prop (Some (designer_template s)) k)"
proof -
  have wf: "wf_json (JObj fs)" by (rule wf_page_of_template[OF assms(1,2)])
  from generate_result[OF assms(1-3)] obtain doc where
    g: "generate_click s = Inr (s\<lparr> generated := generated s @ [(doc, [generated_inputs fs])] \<rparr>)"
    and p: "get_prop (Some doc) ''schemas'' = Inr (Some (JArr (generated_pages fs others)))"
    and o: "\<forall>k. k \<noteq> ''schemas'' \<longrightarrow> get_prop (Some doc) k = get_prop (Some (designer_template s)) k"
    by blast
  have i0: "get_index (Some (JArr (generated_pages fs others))) 0 = Inr (Some (JObj (first_page 6 fs)))"
    by (simp add: get_index_def generated_pages_def)
  have ks: "map fst (first_page 6 fs) = map fst fs" by (rule first_page_keys[OF wf assms(3)])
  have un: "\<forall>k. k \<notin> set footer_keys \<longrightarrow> map_of (first_page 6 fs) k = map_of fs k"
    using first_page_lookup(1)[OF wf assms(3)] by blast
  have hd: "\<forall>k\<in>set header_keys. map_of (first_page 6 fs) k = map_of fs k"
    using first_page_lookup(1)[OF wf assms(3)] header_key_not_footer by simp
  have ft: "\<forall>i<3. map_of (first_page 6 fs) (footer_keys ! i)
                     = Some (reposition ([Fin 214 0, Fin 23 1, Fin 228 0] ! i) (the (map_of fs (footer_keys ! i))))"
  proof (intro allI impI)
    fix i :: nat assume i: "i < 3"
    have "footer_ys (Fin 214 0) ! i = [Fin 214 0, Fin 23 1, Fin 228 0] ! i"
      using i unfolding footer_ys_214 by (simp add: nth_Cons' )
    then show "map_of (first_page 6 fs) (footer_keys ! i)
                     = Some (reposition ([Fin 214 0, Fin 23 1, Fin 228 0] ! i) (the (map_of fs (footer_keys ! i))))"
      using first_page_lookup(2)[OF wf assms(3) i, of 6] by simp
  qed
  have pg: "map_of (first_page 6 fs) ''pages''
             = Some (with_content (JStr ''Page 1 of 6'') (reposition (Fin 239 0) (the (map_of fs ''pages''))))"
    using first_page_lookup(3)[OF wf assms(3), of 6] by (simp only: page_label_6)
  show ?thesis
    by (rule exI[of _ doc], rule exI[of _ "generated_inputs fs"],
        rule exI[of _ "generated_pages fs others"], rule exI[of _ "first_page 6 fs"])
       (intro conjI g p i0 ks un hd ft pg o)
qed

theorem C10_first_page_frame_witness:
  "wf_json (designer_template sample_app)
   \<and> get_prop (Some (designer_template sample_app)) ''schemas'' = Inr (Some (JArr [JObj sample_fields]))
   \<and> fits_layout sample_fields
   \<and> (\<exists>doc inputs pages page1.
         generate_click sample_app = Inr (sample_app\<lparr> generated := [(doc, [inputs])] \<rparr>)
       \<and> get_prop (Some doc) ''schemas'' = Inr (Some (JArr pages))
       \<and> get_index (Some (JArr pages)) 0 = Inr (Some (JObj page1))
       \<and> map fst page1 = map fst sample_fields
       \<and> map_of page1 ''logo'' = map_of sample_fields ''logo''
       \<and> map_of page1 ''footer_el_2''
           = Some (reposition (Fin 23 1) (the (map_of sample_fields ''footer_el_2'')))
       \<and> map_of page1 ''pages''
           = Some (with_content (JStr ''Page 1 of 6'')
                     (reposition (Fin 239 0) (the (map_of sample_fields ''pages'')))))"
proof -
  have g: "generated sample_app = []" by (simp add: sample_app_def)
  from C10_first_page_frame[OF wf_sample_app sample_schemas fits_sample_fields]
  obtain doc inputs pages page1 where
    r: "generate_click sample_app = Inr (sample_app\<lparr> generated := generated sample_app @ [(doc, [inputs])] \<rparr>)"
      "get_prop (Some doc) ''schemas'' = Inr (Some (JArr pages))"
      "get_index (Some (JArr pages)) 0 = Inr (Some (JObj page1))"
      "map fst page1 = map fst sample_fields"
      "map_of page1 ''pages''
         = Some (with_content (JStr ''Page 1 of 6'')
                   (reposition (Fin 239 0) (the (map_of sample_fields ''pages''))))"
    and h: "\<forall>k\<in>set header_keys. map_of page1 k = map_of sample_fields k"
    and f: "\<forall>i<3. map_of page1 (footer_keys ! i)
                     = Some (reposition ([Fin 214 0, Fin 23 1, Fin 228 0] ! i)
                               (the (map_of sample_fields (footer_keys ! i))))"
    by (elim exE conjE) (rule that; assumption)
  have l: "map_of page1 ''logo'' = map_of sample_fields ''logo''"
    using h by (simp add: header_keys_def)
  have "map_of page1 (footer_keys ! 1)
          = Some (reposition ([Fin 214 0, Fin 23 1, Fin 228 0] ! 1)
                    (the (map_of sample_fields (footer_keys ! 1))))"
    using f by simp
  then have e: "map_of page1 ''footer_el_2''
           = Some (reposition (Fin 23 1) (the (map_of sample_fields ''footer_el_2'')))"
    by (simp add: footer_keys_def)
  have "generate_click sample_app = Inr (sample_app\<lparr> generated := [(doc, [inputs])] \<rparr>)"
    using r(1) g by simp
  then show ?thesis
    using r(2-5) l e wf_sample_app sample_schemas fits_sample_fields by blast
qed


lemma wf_long_template: "wf_json long_template"
  using wf_sample_template by (simp add: long_template_def sample_template_def list_all_iff)

lemma generated_pages_take:
  "take 5 (drop 1 (generated_pages fs others)) = map (expected_page fs) [2..<7]"
proof -
  have "length (map (added_page fs) [2..<7]) = 5" by simp
  then show ?thesis
    by (simp add: generated_pages_def added_page_expected del: upt_Suc map_eq_conv)
qed

text \<open>
  Claim C1, as stated, fails on a document of more than six pages, and on one of two to five
  pages. The handler writes its five pages at the indices 1 to 5 of the document, over the
  pages that are there. \<open>long_app\<close> holds a document of eight pages, the first of them the
  sample page: the document passed to the generator has eight pages, not six, while the
  label of the first page reads \<^verbatim>\<open>Page 1 of 6\<close>.
\<close>

theorem C1_counterexample:
  "generate_click long_app
     = Inr (long_app\<lparr>generated := [(long_document, [generated_inputs sample_fields])]\<rparr>)
   \<and> get_prop (Some long_document) ''schemas''
     = Inr (Some (JArr (generated_pages sample_fields (replicate 7 (JObj [])))))
   \<and> length (generated_pages sample_fields (replicate 7 (JObj []))) = 8
   \<and> generated_inputs sample_fields ''pages'' = Some (Some (JStr ''Page 1 of 6''))"
proof -
  let ?tps = "[(''schemas'', JArr (sample_page # replicate 7 (JObj []))),
               (''basePdf'', JObj [(''width'', JNum (Fin 21 1)), (''height'', JNum (Fin 297 0)),
                  (''padding'', JArr [JNum (Fin 0 0), JNum (Fin 0 0), JNum (Fin 0 0), JNum (Fin 0 0)])])]"
  have wf: "wf_json (designer_template long_app)" by (simp add: long_app_def wf_long_template)
  have t: "designer_template long_app = JObj ?tps" by (simp add: long_app_def long_template_def)
  have m: "map_of ?tps ''schemas'' = Some (JArr (JObj sample_fields # replicate 7 (JObj [])))"
    by (simp add: sample_page_def)
  have g: "generated long_app = []" by (simp add: long_app_def sample_app_def)
  have a: "generate_click long_app
     = Inr (long_app\<lparr>generated := [(long_document, [generated_inputs sample_fields])]\<rparr>)"
    unfolding generate_click_ok[OF wf t m fits_sample_fields] g long_document_def
      generated_pages_def generated_inputs_def
    by simp
  have b: "get_prop (Some long_document) ''schemas''
     = Inr (Some (JArr (generated_pages sample_fields (replicate 7 (JObj [])))))"
    by (simp add: long_document_def get_prop_def)
  have c: "length (generated_pages sample_fields (replicate 7 (JObj []))) = 8"
    by (simp add: length_generated_pages)
  have d: "generated_inputs sample_fields ''pages'' = Some (Some (JStr ''Page 1 of 6''))"
    unfolding generated_inputs_def inputs_pages[OF wf_sample_fields fits_sample_fields]
    by (simp only: page_label_6)
  from a b c d show ?thesis by (intro conjI)
qed

text \<open>
  Claim C1, amended. The handler builds 35 rows; after the first four, 31 remain, and
  \<open>\<lceil>31 / 7\<rceil> = 5\<close>. Let the first page of the document have the expected layout and no
  field whose name starts with \<^verbatim>\<open>page_\<close>. Then the handler passes to the generator a
  document whose pages at the indices 1 to 5 are the five pages it writes, and whose pages
  after the sixth are those of the snapshot: a snapshot of at most six pages, a one-page
  template among them, gives exactly six pages, and a longer one keeps its length. The
  \<^verbatim>\<open>pages\<close> field on the first page has the content \<^verbatim>\<open>Page 1 of 6\<close>, and the value map
  holds \<^verbatim>\<open>Page 1 of 6\<close> under \<^verbatim>\<open>pages\<close> and \<^verbatim>\<open>Page n of 6\<close> under the key of the copied
  \<^verbatim>\<open>pages\<close> field of each page \<open>n\<close> from 2 to 6.
\<close>

theorem C1_six_pages:
  assumes "wf_json (designer_template s)"
    and "get_prop (Some (designer_template s)) ''schemas'' = Inr (Some (JArr (JObj fs # others)))"
    and "fits_layout fs" and "no_page_keys fs"
  shows "sample_rows 35 = Inr (map sample_row [0..<35])
         \<and> page_count (map sample_row [0..<35]) = 5
         \<and> (\<exists>doc inputs pages pages1.
               generate_click s = Inr (s\<lparr> generated := generated s @ [(doc, [inputs])] \<rparr>)
             \<and> get_prop (Some doc) ''schemas'' = Inr (Some (JArr pages))
             \<and> length pages = max 6 (Suc (length others))
             \<and> (length others \<le> 5 \<longrightarrow> length pages = 6)
             \<and> take 5 (drop 1 pages) = map (expected_page fs) [2..<7]
             \<and> drop 6 pages = drop 5 others
             \<and> get_index (Some (JArr pages)) 0 = Inr (Some (JObj pages1))
             \<and> map_option content_of (map_of pages1 ''pages'') = Some (Some (JStr ''Page 1 of 6''))
             \<and> inputs ''pages'' = Some (Some (JStr ''Page 1 of 6''))
             \<and> (\<forall>n\<in>{2..6}. inputs (page_key n ''footer_el'' 4)
                              = Some (Some (JStr (''Page '' @ digits n @ '' of 6'')))))"
proof -
  have wf: "wf_json (JObj fs)" by (rule wf_page_of_template[OF assms(1,2)])
  from generate_result[OF assms(1-3)] obtain doc where
    g: "generate_click s = Inr (s\<lparr> generated := generated s @ [(doc, [generated_inputs fs])] \<rparr>)"
    and p: "get_prop (Some doc) ''schemas'' = Inr (Some (JArr (generated_pages fs others)))"
    by blast
  have l: "length (generated_pages fs others) = max 6 (Suc (length others))"
    by (rule length_generated_pages)
  have l6: "length others \<le> 5 \<longrightarrow> length (generated_pages fs others) = 6"
    unfolding l by simp
  have tk: "take 5 (drop 1 (generated_pages fs others)) = map (expected_page fs) [2..<7]"
    by (rule generated_pages_take)
  have d: "drop 6 (generated_pages fs others) = drop 5 others"
    by (simp add: generated_pages_def)
  have i0: "get_index (Some (JArr (generated_pages fs others))) 0 = Inr (Some (JObj (first_page 6 fs)))"
    by (simp add: get_index_def generated_pages_def)
  have c: "map_option content_of (map_of (first_page 6 fs) ''pages'') = Some (Some (JStr ''Page 1 of 6''))"
    by (simp add: first_page_lookup(3)[OF wf assms(3)]
          content_of_with_content[OF pages_positioned[OF assms(3)]] page_label_6)
  have ip: "generated_inputs fs ''pages'' = Some (Some (JStr ''Page 1 of 6''))"
    unfolding generated_inputs_def inputs_pages[OF wf assms(3)] by (simp only: page_label_6)
  have ik: "\<forall>n\<in>{2..6}. generated_inputs fs (page_key n ''footer_el'' 4)
                              = Some (Some (JStr (''Page '' @ digits n @ '' of 6'')))"
  proof
    fix n :: nat assume "n \<in> {2..6}"
    then have n: "2 \<le> n" "n \<le> 5 + 1" by simp_all
    have six: "digits 6 = ''6''" by (simp add: digits.simps digit_char_def)
    show "generated_inputs fs (page_key n ''footer_el'' 4)
                              = Some (Some (JStr (''Page '' @ digits n @ '' of 6'')))"
      unfolding generated_inputs_def inputs_page_key[OF wf assms(3,4)]
      by (simp add: loop_inputs_values(4)[OF n] page_label_def six)
  qed
  have r: "sample_rows 35 = Inr (map sample_row [0..<35])" by (rule sample_rows_ok)
  have pc: "page_count (map sample_row [0..<35]) = 5" by (rule page_count_35) simp
  have "\<exists>doc inputs pages pages1.
               generate_click s = Inr (s\<lparr> generated := generated s @ [(doc, [inputs])] \<rparr>)
             \<and> get_prop (Some doc) ''schemas'' = Inr (Some (JArr pages))
             \<and> length pages = max 6 (Suc (length others))
             \<and> (length others \<le> 5 \<longrightarrow> length pages = 6)
             \<and> take 5 (drop 1 pages) = map (expected_page fs) [2..<7]
             \<and> drop 6 pages = drop 5 others
             \<and> get_index (Some (JArr pages)) 0 = Inr (Some (JObj pages1))
             \<and> map_option content_of (map_of pages1 ''pages'') = Some (Some (JStr ''Page 1 of 6''))
             \<and> inputs ''pages'' = Some (Some (JStr ''Page 1 of 6''))
             \<and> (\<forall>n\<in>{2..6}. inputs (page_key n ''footer_el'' 4)
                              = Some (Some (JStr (''Page '' @ digits n @ '' of 6''))))"
    by (rule exI[of _ doc], rule exI[of _ "generated_inputs fs"],
        rule exI[of _ "generated_pages fs others"], rule exI[of _ "first_page 6 fs"])
       (intro conjI g p l l6 tk d i0 c ip ik)
  with r pc show ?thesis by (intro conjI)
qed

theorem C1_six_pages_witness:
  "wf_json (designer_template sample_app)
   \<and> get_prop (Some (designer_template sample_app)) ''schemas'' = Inr (Some (JArr [JObj sample_fields]))
   \<and> fits_layout sample_fields \<and> no_page_keys sample_fields
   \<and> (\<exists>doc inputs pages.
         generate_click sample_app = Inr (sample_app\<lparr> generated := [(doc, [inputs])] \<rparr>)
       \<and> get_prop (Some doc) ''schemas'' = Inr (Some (JArr pages))
       \<and> length pages = 6
       \<and> inputs ''pages'' = Some (Some (JStr ''Page 1 of 6''))
       \<and> inputs ''page_2_footer_el_4'' = Some (Some (JStr ''Page 2 of 6''))
       \<and> inputs ''page_6_footer_el_4'' = Some (Some (JStr ''Page 6 of 6'')))"
proof -
  have k: "page_key 2 ''footer_el'' 4 = ''page_2_footer_el_4''"
    "page_key 6 ''footer_el'' 4 = ''page_6_footer_el_4''"
    "''Page '' @ digits 2 @ '' of 6'' = ''Page 2 of 6''"
    "''Page '' @ digits 6 @ '' of 6'' = ''Page 6 of 6''"
    by (simp_all add: page_key_def digits.simps digit_char_def)
  have g: "generated sample_app = []" by (simp add: sample_app_def)
  from C1_six_pages[OF wf_sample_app sample_schemas fits_sample_fields no_page_keys_sample]
  obtain doc inputs pages where
    r: "generate_click sample_app = Inr (sample_app\<lparr> generated := generated sample_app @ [(doc, [inputs])] \<rparr>)"
      "get_prop (Some doc) ''schemas'' = Inr (Some (JArr pages))"
      "length pages = max 6 (Suc (length ([]::json list)))"
      "inputs ''pages'' = Some (Some (JStr ''Page 1 of 6''))"
    and a: "\<forall>n\<in>{2..6}. inputs (page_key n ''footer_el'' 4) = Some (Some (JStr (''Page '' @ digits n @ '' of 6'')))"
    by (elim exE conjE) (rule that; assumption)
  have "inputs (page_key 2 ''footer_el'' 4) = Some (Some (JStr (''Page '' @ digits 2 @ '' of 6'')))"
    "inputs (page_key 6 ''footer_el'' 4) = Some (Some (JStr (''Page '' @ digits 6 @ '' of 6'')))"
    using a by simp_all
  then have i: "inputs ''page_2_footer_el_4'' = Some (Some (JStr ''Page 2 of 6''))"
    "inputs ''page_6_footer_el_4'' = Some (Some (JStr ''Page 6 of 6''))"
    unfolding k by simp_all
  have "generate_click sample_app = Inr (sample_app\<lparr> generated := [(doc, [inputs])] \<rparr>)"
    "length pages = 6"
    using r(1,3) g by simp_all
  then show ?thesis
    using r(2,4) i wf_sample_app sample_schemas fits_sample_fields no_page_keys_sample by blast
qed






section \<open>What the generate handler changes in the store\<close>

lemma fresh_simps [simp]:
  "fresh n VUndef" "fresh n VNull" "fresh n (VBool b)" "fresh n (VNum x)" "fresh n (VStr s)"
  "fresh n (VRef a) = (n \<le> a)"
  by (simp_all add: fresh_def)

lemma cell_values_simps [simp]:
  "cell_values (CArr xs) = xs" "cell_values (CObj ps) = map snd ps"
  by (simp_all add: cell_values_def)







lemma fresh_mono: "fresh m v \<Longrightarrow> n \<le> m \<Longrightarrow> fresh n v"
  by (cases v) simp_all





















































text \<open>
  The copy matters in this model. \<open>shared_store\<close> holds the document
  \<^verbatim>\<open>{schemas: [{footer_el_1: {position: {y: 1}}}]}\<close> at address 4. The body of the
  handler, started on this document itself and not on a copy (and on a table without rows,
  which keeps the run short), writes the position of the footer before it fails on the
  missing second footer element: the \<^verbatim>\<open>position\<close> object at address 0 is changed.
\<close>

lemma fill_h_changes_its_argument:
  "fill_h 0 (VRef 4) shared_store
     = (Inl TypeError,
        [CObj [(''y'', VNum (Fin 298 0))],
         CObj [(''position'', VRef 0)],
         CObj [(''footer_el_1'', VRef 1)],
         CArr [VRef 2],
         CObj [(''schemas'', VRef 3)],
         CObj [(''table'', VStr ''[]'')],
         CArr [VStr (''24 May, 2024'' @ [newline] @ ''202401:13:37 PM''),
               VStr ''Payment link'',
               VStr (''1.09 USD'' @ [newline] @ ''1.11 USDT''),
               VStr ''-'',
               VStr ''1.59 USD'']])"
  by code_simp



end
